theory Spec2Isabelle
  imports Main "HOL-Library.Sublist"
begin

section \<open>Python strings and the regular expressions of the scripts\<close>

text \<open>
  A Python \<open>str\<close> is a sequence of Unicode code points, so it is a list of naturals here;
  \<open>py\<close> turns an ASCII literal into such a list.
\<close>

type_synonym pystr = "nat list"

definition py :: "string \<Rightarrow> pystr" where
  "py s = map of_char s"

definition NL :: nat where
  "NL = 10"

text \<open>
  \<open>str.isspace\<close> of one code point, which is also what \<open>\s\<close> matches in a \<open>str\<close> pattern
  and what \<open>str.strip()\<close> removes.
\<close>

definition is_space :: "nat \<Rightarrow> bool" where
  "is_space c = ((9 \<le> c \<and> c \<le> 13) \<or> (28 \<le> c \<and> c \<le> 32) \<or> c = 133 \<or> c = 160
      \<or> c = 5760 \<or> (8192 \<le> c \<and> c \<le> 8202) \<or> c = 8232 \<or> c = 8233 \<or> c = 8239
      \<or> c = 8287 \<or> c = 12288)"

definition lit :: "char \<Rightarrow> nat \<Rightarrow> bool" where
  "lit ch c = (c = of_char ch)"

definition one_of :: "string \<Rightarrow> nat \<Rightarrow> bool" where
  "one_of s c = (c \<in> set (py s))"

definition in_range :: "nat \<Rightarrow> nat \<Rightarrow> nat \<Rightarrow> bool" where
  "in_range lo hi c = (lo \<le> c \<and> c \<le> hi)"

text \<open>
  The fragment of \<open>re\<close> syntax the scripts use. Every repetition in their patterns is over a
  single character class, so \<open>Rep p lo hi greedy\<close> covers \<open>*\<close>, \<open>+\<close>, \<open>?\<close>, \<open>{m,n}\<close> and
  their lazy forms.
\<close>

datatype rx =
    Eps
  | Sym "nat \<Rightarrow> bool"
  | Rep "nat \<Rightarrow> bool" nat "nat option" bool
  | Seq rx rx
  | Alt rx rx
  | Grp nat rx
  | Bol
  | Eol
  | EndZ
  | Ahead rx
  | NotAhead rx
  | NotBehind "nat \<Rightarrow> bool"

fun cat :: "rx list \<Rightarrow> rx" where
  "cat [] = Eps"
| "cat (r # rs) = Seq r (cat rs)"


text \<open>
  The state of a match attempt: the text before the position (nearest character first),
  the text from the position on, and the groups captured so far.
\<close>

record mctx =
  seen :: pystr
  rest :: pystr
  groups :: "(nat \<times> pystr) list"

definition advance :: "nat \<Rightarrow> mctx \<Rightarrow> mctx" where
  "advance k c = c\<lparr>seen := rev (take k (rest c)) @ seen c, rest := drop k (rest c)\<rparr>"

definition run_len :: "(nat \<Rightarrow> bool) \<Rightarrow> nat option \<Rightarrow> pystr \<Rightarrow> nat" where
  "run_len p hi s =
     (let n = length (takeWhile p s) in case hi of None \<Rightarrow> n | Some h \<Rightarrow> min h n)"

definition consumed :: "mctx \<Rightarrow> mctx \<Rightarrow> pystr" where
  "consumed c m = take (length (rest c) - length (rest m)) (rest c)"

text \<open>
  \<open>rx_run r c\<close> lists the states in which an attempt to match \<open>r\<close> at \<open>c\<close> can end, in the
  order in which the backtracking matcher of \<open>re\<close> tries them; the head is the match.
\<close>

fun rx_run :: "rx \<Rightarrow> mctx \<Rightarrow> mctx list" where
  "rx_run Eps c = [c]"
| "rx_run (Sym p) c =
     (case rest c of [] \<Rightarrow> [] | x # xs \<Rightarrow> if p x then [advance 1 c] else [])"
| "rx_run (Rep p lo hi greedy) c =
     (let n = run_len p hi (rest c);
          ks = (if greedy then rev [lo..<Suc n] else [lo..<Suc n])
      in map (\<lambda>k. advance k c) ks)"
| "rx_run (Seq a b) c = concat (map (rx_run b) (rx_run a c))"
| "rx_run (Alt a b) c = rx_run a c @ rx_run b c"
| "rx_run (Grp i r) c =
     map (\<lambda>m. m\<lparr>groups := (i, consumed c m) # groups m\<rparr>) (rx_run r c)"
| "rx_run Bol c = (if seen c = [] then [c] else [])"
| "rx_run Eol c = (if rest c = [] \<or> rest c = [NL] then [c] else [])"
| "rx_run EndZ c = (if rest c = [] then [c] else [])"
| "rx_run (Ahead r) c = (if rx_run r c = [] then [] else [c])"
| "rx_run (NotAhead r) c = (if rx_run r c = [] then [c] else [])"
| "rx_run (NotBehind p) c =
     (case seen c of [] \<Rightarrow> [c] | x # xs \<Rightarrow> if p x then [] else [c])"

text \<open>A lower bound on the number of characters a match consumes.\<close>

fun rx_min :: "rx \<Rightarrow> nat" where
  "rx_min (Sym p) = 1"
| "rx_min (Rep p lo hi g) = lo"
| "rx_min (Seq a b) = rx_min a + rx_min b"
| "rx_min (Alt a b) = min (rx_min a) (rx_min b)"
| "rx_min (Grp i r) = rx_min r"
| "rx_min r = 0"

definition start :: "pystr \<Rightarrow> pystr \<Rightarrow> mctx" where
  "start bef s = \<lparr>seen = bef, rest = s, groups = []\<rparr>"

definition group :: "mctx \<Rightarrow> nat \<Rightarrow> pystr" where
  "group m i = (case map_of (groups m) i of None \<Rightarrow> [] | Some s \<Rightarrow> s)"

text \<open>\<open>re.match\<close>: the match at the start of the string, if any.\<close>

definition re_match :: "rx \<Rightarrow> pystr \<Rightarrow> mctx option" where
  "re_match r s = (case rx_run r (start [] s) of [] \<Rightarrow> None | m # ms \<Rightarrow> Some m)"

text \<open>\<open>re.search\<close>: the match at the leftmost position that has one.\<close>

fun search_from :: "rx \<Rightarrow> pystr \<Rightarrow> pystr \<Rightarrow> mctx option" where
  "search_from r bef [] = (case rx_run r (start bef []) of m # ms \<Rightarrow> Some m | [] \<Rightarrow> None)"
| "search_from r bef (x # xs) =
     (case rx_run r (start bef (x # xs)) of
        m # ms \<Rightarrow> Some m
      | [] \<Rightarrow> search_from r (x # bef) xs)"

definition re_search :: "rx \<Rightarrow> pystr \<Rightarrow> mctx option" where
  "re_search r s = search_from r [] s"

text \<open>
  \<open>re.sub\<close> with a replacement computed from the match. The scan goes left to right and
  the matches do not overlap; after an empty match the next one at the same position has to
  be non-empty (\<open>adv\<close>), as in Python 3.7 and later.
\<close>

function sub_loop :: "rx \<Rightarrow> (mctx \<Rightarrow> pystr) \<Rightarrow> bool \<Rightarrow> pystr \<Rightarrow> pystr \<Rightarrow> pystr" where
  "sub_loop r f adv bef s =
     (case filter (\<lambda>m. \<not> adv \<or> length (rest m) < length s) (rx_run r (start bef s)) of
        m # ms \<Rightarrow>
          if length (rest m) < length s then f m @ sub_loop r f False (seen m) (rest m)
          else f m @ sub_loop r f True bef s
      | [] \<Rightarrow> (case s of [] \<Rightarrow> [] | x # xs \<Rightarrow> x # sub_loop r f False (x # bef) xs))"
  by pat_completeness auto
termination
proof (relation "measure (\<lambda>(r, f, adv, bef, s). 2 * length s + (if adv then 0 else 1))")
  show "wf (measure (\<lambda>(r, f, adv, bef, s). 2 * length s + (if adv then 0 else 1)))"
    by simp
next
  fix r :: rx and f :: "mctx \<Rightarrow> pystr" and adv bef s m ms
  assume "filter (\<lambda>m. \<not> adv \<or> length (rest m) < length s) (rx_run r (start bef s)) = m # ms"
    and "length (rest m) < length s"
  then show "((r, f, False, seen m, rest m), (r, f, adv, bef, s))
      \<in> measure (\<lambda>(r, f, adv, bef, s). 2 * length s + (if adv then 0 else 1))"
    by simp
next
  fix r :: rx and f :: "mctx \<Rightarrow> pystr" and adv bef s m ms
  assume eq: "filter (\<lambda>m. \<not> adv \<or> length (rest m) < length s) (rx_run r (start bef s)) = m # ms"
    and long: "\<not> length (rest m) < length s"
  from eq have "m \<in> set (filter (\<lambda>m. \<not> adv \<or> length (rest m) < length s)
      (rx_run r (start bef s)))"
    by simp
  with long have "\<not> adv" by simp
  then show "((r, f, True, bef, s), (r, f, adv, bef, s))
      \<in> measure (\<lambda>(r, f, adv, bef, s). 2 * length s + (if adv then 0 else 1))"
    by simp
next
  fix r :: rx and f :: "mctx \<Rightarrow> pystr" and adv bef s x xs
  assume "s = x # xs"
  then show "((r, f, False, x # bef, xs), (r, f, adv, bef, s))
      \<in> measure (\<lambda>(r, f, adv, bef, s). 2 * length s + (if adv then 0 else 1))"
    by simp
qed

declare sub_loop.simps [simp del]

definition re_sub :: "rx \<Rightarrow> (mctx \<Rightarrow> pystr) \<Rightarrow> pystr \<Rightarrow> pystr" where
  "re_sub r f s = sub_loop r f False [] s"

section \<open>Python string and file operations\<close>

text \<open>\<open>str.startswith\<close>.\<close>

definition startswith :: "pystr \<Rightarrow> pystr \<Rightarrow> bool" where
  "startswith s p = (take (length p) s = p)"

text \<open>
  \<open>str.replace(old, new)\<close>: the occurrences of \<open>old\<close> from left to right, without
  overlap; an empty \<open>old\<close> puts \<open>new\<close> before every character and at the end.
\<close>

function replace_from :: "pystr \<Rightarrow> pystr \<Rightarrow> pystr \<Rightarrow> pystr" where
  "replace_from old new s =
     (if old \<noteq> [] \<and> startswith s old then new @ replace_from old new (drop (length old) s)
      else (case s of [] \<Rightarrow> [] | x # xs \<Rightarrow> x # replace_from old new xs))"
  by pat_completeness auto
termination
proof (relation "measure (\<lambda>(old, new, s). length s)")
  show "wf (measure (\<lambda>(old, new, s). length s))" by simp
next
  fix old new s :: pystr
  assume a: "old \<noteq> [] \<and> startswith s old"
  then have "length (take (length old) s) = length old"
    by (simp add: startswith_def)
  then have "length old \<le> length s" by simp
  with a show "((old, new, drop (length old) s), (old, new, s)) \<in> measure (\<lambda>(old, new, s). length s)"
    by (cases old) auto
next
  fix old new s :: pystr and x xs
  assume "s = x # xs"
  then show "((old, new, xs), (old, new, s)) \<in> measure (\<lambda>(old, new, s). length s)"
    by simp
qed

declare replace_from.simps [simp del]

definition str_replace :: "pystr \<Rightarrow> pystr \<Rightarrow> pystr \<Rightarrow> pystr" where
  "str_replace s old new =
     (if old = [] then new @ concat (map (\<lambda>c. c # new) s) else replace_from old new s)"

text \<open>
  \<open>f.readlines()\<close> cuts the text after every newline and keeps the newline on the line;
  \<open>f.writelines\<close> writes the lines one after the other.
\<close>

fun split_keepends :: "pystr \<Rightarrow> pystr \<Rightarrow> pystr list" where
  "split_keepends cur [] = (if cur = [] then [] else [cur])"
| "split_keepends cur (x # xs) =
     (if x = NL then (cur @ [x]) # split_keepends [] xs else split_keepends (cur @ [x]) xs)"

definition readlines :: "pystr \<Rightarrow> pystr list" where
  "readlines content = split_keepends [] content"

definition writelines :: "pystr list \<Rightarrow> pystr" where
  "writelines lines = concat lines"

text \<open>\<open>str.lstrip()\<close>, \<open>str.rstrip()\<close> and \<open>str.strip()\<close> without arguments.\<close>

definition lstrip :: "pystr \<Rightarrow> pystr" where
  "lstrip s = dropWhile is_space s"

definition rstrip :: "pystr \<Rightarrow> pystr" where
  "rstrip s = rev (dropWhile is_space (rev s))"

definition strip :: "pystr \<Rightarrow> pystr" where
  "strip s = rstrip (lstrip s)"

text \<open>\<open>s.split('\n')\<close> and \<open>'\n'.join(lines)\<close>.\<close>

fun split_nl :: "pystr \<Rightarrow> pystr list" where
  "split_nl [] = [[]]"
| "split_nl (x # xs) =
     (if x = NL then [] # split_nl xs
      else (case split_nl xs of [] \<Rightarrow> [[x]] | l # ls \<Rightarrow> (x # l) # ls))"

fun join_nl :: "pystr list \<Rightarrow> pystr" where
  "join_nl [] = []"
| "join_nl [l] = l"
| "join_nl (l # ls) = l @ NL # join_nl ls"

text \<open>
  The Unicode tables behind \<open>\d\<close> and \<open>\w\<close> are not part of the scripts: the functions that
  use them take the table as a parameter. \<open>ascii_digit\<close> and \<open>ascii_word\<close> are their
  restrictions to ASCII, used to run the functions on examples.
\<close>

definition ascii_digit :: "nat \<Rightarrow> bool" where
  "ascii_digit c = (48 \<le> c \<and> c \<le> 57)"


text \<open>\<open>str.endswith\<close>.\<close>

definition endswith :: "pystr \<Rightarrow> pystr \<Rightarrow> bool" where
  "endswith s p = (length p \<le> length s \<and> drop (length s - length p) s = p)"

text \<open>\<open>str.lower\<close> on ASCII text; the scripts' own calls take the full function as a parameter.\<close>

definition ascii_lower :: "pystr \<Rightarrow> pystr" where
  "ascii_lower s = map (\<lambda>c. if 65 \<le> c \<and> c \<le> 90 then c + 32 else c) s"






text \<open>The exceptions that end a script in the modelled paths.\<close>

datatype py_error = ZeroDivisionError | FileNotFoundError

section \<open>replace\_br\_tags.py\<close>

text \<open>
  \<^verbatim>\<open>re.sub(r'<br\s*/?\s*>', '\n', content, flags=re.IGNORECASE)\<close>. Under \<open>IGNORECASE\<close> the
  letters \<open>b\<close> and \<open>r\<close> match their two cases; no other code point folds to them.
\<close>

definition br_rx :: rx where
  "br_rx = cat [Sym (lit CHR ''<''), Sym (one_of ''bB''), Sym (one_of ''rR''),
     Rep is_space 0 None True, Rep (lit CHR ''/'') 0 (Some 1) True, Rep is_space 0 None True,
     Sym (lit CHR ''>'')]"

definition replace_br_tags :: "pystr \<Rightarrow> pystr" where
  "replace_br_tags content = re_sub br_rx (\<lambda>m. [NL]) content"

text \<open>
  An occurrence of \<open><br>\<close> in any letter case at the head of a text: what the script's own
  check \<^verbatim>\<open>re.findall(r'<br>', content, re.IGNORECASE)\<close> counts.
\<close>

definition br_at :: "pystr \<Rightarrow> bool" where
  "br_at s = (\<exists>a b v. s = of_char CHR ''<'' # a # b # of_char CHR ''>'' # v
      \<and> a \<in> {of_char CHR ''b'', of_char CHR ''B''} \<and> b \<in> {of_char CHR ''r'', of_char CHR ''R''})"


section \<open>promote\_headings.py\<close>

text \<open>\<^verbatim>\<open>re.match(r'^(#+)\s', line)\<close>\<close>

definition heading_rx :: rx where
  "heading_rx = cat [Bol, Grp 1 (Rep (lit CHR ''#'') 1 None True), Sym is_space]"

definition promote_line :: "pystr \<Rightarrow> pystr" where
  "promote_line line =
     (if startswith line (py ''#'') then
        (case re_match heading_rx line of
           Some heading_match \<Rightarrow>
             (let hashes = group heading_match 1
              in if length hashes > 1 then drop 1 line else line)
         | None \<Rightarrow> line)
      else line)"

fun promote_loop :: "pystr list \<Rightarrow> pystr list \<Rightarrow> pystr list" where
  "promote_loop [] new_lines = new_lines"
| "promote_loop (line # lines) new_lines = promote_loop lines (new_lines @ [promote_line line])"

text \<open>
  The module body: \<open>f.readlines()\<close>, the loop, \<open>f.writelines(new_lines)\<close>. The content is
  the decoded text of the file as Python's text mode hands it over.
\<close>

definition promote_headings :: "pystr \<Rightarrow> pystr" where
  "promote_headings content = writelines (promote_loop (readlines content) [])"

text \<open>
  The level of a heading line as the claim words it: the number of hash marks at the start
  of a line on which whitespace follows them, and 0 for any other line.
\<close>

definition heading_level :: "pystr \<Rightarrow> nat" where
  "heading_level line =
     (let n = length (takeWhile (\<lambda>c. c = of_char CHR ''#'') line)
      in case drop n line of [] \<Rightarrow> 0 | c # cs \<Rightarrow> if is_space c then n else 0)"


section \<open>remove\_emojis.py\<close>

text \<open>
  The character class of \<open>emoji_pattern\<close>: the ranges and single code points between the
  brackets, in the order of the source.
\<close>

definition emoji_ranges :: "(nat \<times> nat) list" where
  "emoji_ranges =
     [(0x1F600, 0x1F64F), (0x1F300, 0x1F5FF), (0x1F680, 0x1F6FF), (0x1F1E0, 0x1F1FF),
      (0x2702, 0x27B0), (0x24C2, 0x1F251), (0x1F900, 0x1F9FF), (0x1FA00, 0x1FA6F),
      (0x1FA70, 0x1FAFF), (0x2600, 0x26FF), (0x2700, 0x27BF), (0x1F018, 0x1F270),
      (0x1F300, 0x1F5FF), (0x1F680, 0x1F6FF), (0x2600, 0x26FF), (0x2700, 0x27BF),
      (0xFE00, 0xFE0F), (0x200D, 0x200D), (0x2640, 0x2642), (0x2695, 0x2695),
      (0x2699, 0x2699), (0x269B, 0x269C), (0x26A0, 0x26A1), (0x26AA, 0x26AB),
      (0x26B0, 0x26B1), (0x26BD, 0x26BE), (0x26C4, 0x26C5), (0x26CE, 0x26CE),
      (0x26D4, 0x26D4), (0x26EA, 0x26EA), (0x26F2, 0x26F3), (0x26F5, 0x26F5),
      (0x26FA, 0x26FA), (0x26FD, 0x26FD), (0x2705, 0x2705), (0x270A, 0x270B),
      (0x2728, 0x2728), (0x274C, 0x274C), (0x274E, 0x274E), (0x2753, 0x2755),
      (0x2757, 0x2757), (0x2795, 0x2797), (0x27B0, 0x27B0), (0x27BF, 0x27BF),
      (0x2B1B, 0x2B1C), (0x2B50, 0x2B50), (0x2B55, 0x2B55), (0x3030, 0x3030),
      (0x303D, 0x303D), (0x3297, 0x3297), (0x3299, 0x3299)]"

definition emoji_class :: "nat \<Rightarrow> bool" where
  "emoji_class c = list_ex (\<lambda>(lo, hi). lo \<le> c \<and> c \<le> hi) emoji_ranges"

definition emoji_pattern :: rx where
  "emoji_pattern = Rep emoji_class 1 None True"

text \<open>The twenty literal strings that \<open>text.replace(..., '')\<close> deletes, in order.\<close>

definition mojibake :: "pystr list" where
  "mojibake =
     [[0x201A, 0xFA, 0xD6], [0x201A, 0xF9, 0xE5], [0x201A, 0xFA, 0xEC], [0x201A, 0xFA, 0xF3],
      [0x201A, 0xF6, 0x2020, 0xD4, 0x220F, 0xE8], [0x201A, 0xF6, 0x2020],
      [0xF8FF, 0xFC, 0xE9, 0xE2], [0xF8FF, 0xFC, 0xE9, 0xD8], [0xF8FF, 0xFC, 0xEC, 0xE4],
      [0xF8FF, 0xFC, 0xEC, 0xC5], [0xF8FF, 0xFC, 0xEC, 0x220F], [0xF8FF, 0xFC, 0xEE, 0xD1],
      [0x201A, 0x2260, 0xEA], [0xF8FF, 0xFC, 0xF6, 0xC4], [0xF8FF, 0xFC, 0xED, 0xB0],
      [0xF8FF, 0xFC, 0xEE, 0xE7], [0xF8FF, 0xFC, 0xEC, 0xF9], [0xF8FF, 0xFC, 0xE8, 0x2020],
      [0xF8FF, 0xFC, 0xEC, 0xB6], [0xF8FF, 0xFC, 0xE5, 0xEA]]"

text \<open>\<^verbatim>\<open>re.sub(r' +', ' ', text)\<close> and \<^verbatim>\<open>re.sub(r'\n\s*\n\s*\n', '\n\n', text)\<close>\<close>

definition spaces_rx :: rx where
  "spaces_rx = Rep (lit CHR '' '') 1 None True"

definition blank_lines_rx :: rx where
  "blank_lines_rx = cat [Sym (\<lambda>c. c = NL), Rep is_space 0 None True, Sym (\<lambda>c. c = NL),
     Rep is_space 0 None True, Sym (\<lambda>c. c = NL)]"

definition remove_emojis :: "pystr \<Rightarrow> pystr" where
  "remove_emojis text0 =
     (let text1 = re_sub emoji_pattern (\<lambda>m. []) text0;
          text2 = foldl (\<lambda>t old. str_replace t old []) text1 mojibake;
          text3 = re_sub spaces_rx (\<lambda>m. py '' '') text2;
          text4 = re_sub blank_lines_rx (\<lambda>m. [NL, NL]) text3
      in text4)"

text \<open>
  \<open>main\<close>: the number it prints as removed and the text it writes. The percentage it prints
  on the same line divides by the original length, so an empty file ends the script with
  \<open>ZeroDivisionError\<close> before anything is written.
\<close>

definition remove_emojis_main :: "pystr \<Rightarrow> py_error + (int \<times> pystr)" where
  "remove_emojis_main content =
     (let original_length = int (length content);
          cleaned_content = remove_emojis content;
          cleaned_length = int (length cleaned_content);
          removed = original_length - cleaned_length
      in if original_length = 0 then Inl ZeroDivisionError else Inr (removed, cleaned_content))"


section \<open>add\_newlines\_before\_lists.py\<close>

text \<open>
  \<^verbatim>\<open>re.match(r'^[-*+]\s', stripped)\<close> and \<^verbatim>\<open>re.match(r'^\d+[.)]\s', stripped)\<close>;
  \<open>decimal\<close> is the table of decimal digits that \<open>\d\<close> stands for.
\<close>

definition ul_rx :: rx where
  "ul_rx = cat [Bol, Sym (one_of ''-*+''), Sym is_space]"

definition ol_rx :: "(nat \<Rightarrow> bool) \<Rightarrow> rx" where
  "ol_rx decimal = cat [Bol, Rep decimal 1 None True, Sym (one_of ''.)''), Sym is_space]"

definition is_list_item :: "(nat \<Rightarrow> bool) \<Rightarrow> pystr \<Rightarrow> bool" where
  "is_list_item decimal line =
     (let stripped = lstrip line in
      if re_match ul_rx stripped \<noteq> None then True
      else if re_match (ol_rx decimal) stripped \<noteq> None then True
      else False)"

definition is_blank_line :: "pystr \<Rightarrow> bool" where
  "is_blank_line line = (strip line = [])"

definition is_code_fence :: "pystr \<Rightarrow> bool" where
  "is_code_fence line = startswith (strip line) (py ''```'')"

text \<open>
  The loop of \<open>add_newlines_before_lists\<close>. \<open>prev\<close> is \<open>lines[i-1]\<close>, and \<open>None\<close> when
  \<open>i = 0\<close>.
\<close>

fun list_loop :: "(nat \<Rightarrow> bool) \<Rightarrow> bool \<Rightarrow> pystr option \<Rightarrow> pystr list \<Rightarrow> pystr list \<Rightarrow> pystr list" where
  "list_loop decimal in_code_block prev [] result = result"
| "list_loop decimal in_code_block prev (line # lines) result =
     (if is_code_fence line then
        list_loop decimal (\<not> in_code_block) (Some line) lines (result @ [line])
      else if in_code_block then
        list_loop decimal in_code_block (Some line) lines (result @ [line])
      else if is_list_item decimal line
          \<and> (case prev of None \<Rightarrow> False
               | Some p \<Rightarrow> \<not> is_blank_line p \<and> \<not> is_list_item decimal p) then
        list_loop decimal in_code_block (Some line) lines (result @ [[], line])
      else list_loop decimal in_code_block (Some line) lines (result @ [line]))"

definition add_newlines_before_lists :: "(nat \<Rightarrow> bool) \<Rightarrow> pystr \<Rightarrow> pystr" where
  "add_newlines_before_lists decimal content =
     join_nl (list_loop decimal False None (split_nl content) [])"

section \<open>add\_python\_snippets.py\<close>

text \<open>
  \<open>find_pattern_name_before_line\<close> looks at \<open>lines[i]\<close> for \<open>i\<close> from \<open>line_num - 1\<close> down
  to \<open>max(0, line_num - 1000) + 1\<close>: the stop of the \<open>range\<close> is exclusive, so index
  \<open>max(0, line_num - 1000)\<close> itself is never read. \<open>main\<close> calls it with the index of a
  line of the file.
\<close>

definition find_pattern_name_before_line :: "pystr list \<Rightarrow> nat \<Rightarrow> pystr option" where
  "find_pattern_name_before_line lines line_num =
     find (\<lambda>l. startswith l (py ''## CONTINUED:''))
       (rev (drop (Suc (line_num - 1000)) (take line_num lines)))"

text \<open>\<^verbatim>\<open>re.search(r'[(U+2014)-]\s*(.+)$', pattern_header)\<close>, the first class being the em dash U+2014 and the hyphen.\<close>

definition dash_rx :: rx where
  "dash_rx = cat [Sym (\<lambda>c. c = 0x2014 \<or> c = of_char CHR ''-''), Rep is_space 0 None True,
     Grp 1 (Rep (\<lambda>c. c \<noteq> NL) 1 None True), Eol]"

definition filename_mapping :: "(pystr \<times> pystr) list" where
  "filename_mapping =
     [(py ''observer_reactive_streams_pattern'', py ''observer_reactive_streams_pattern''),
      (py ''currying_partial_application_pattern'', py ''currying_partial_application''),
      (py ''chain_of_responsibility_pattern'', py ''chain_of_responsibility_pattern''),
      (py ''pub_sub_pattern'', py ''pubsub_pattern''),
      (py ''mvc_model_view_controller_pattern'', py ''mvc_pattern''),
      (py ''mvp_model_view_presenter_pattern'', py ''mvp_pattern''),
      (py ''mvvm_model_view_viewmodel_pattern'', py ''mvvm_pattern''),
      (py ''cqrs_command_query_responsibility_segregation_pattern'', py ''cqrs_pattern''),
      (py ''functional_composition_pattern'', py ''functional_composition'')]"

text \<open>\<open>lower\<close> is \<open>str.lower\<close>.\<close>

definition pattern_name_to_filename :: "(pystr \<Rightarrow> pystr) \<Rightarrow> pystr \<Rightarrow> pystr option" where
  "pattern_name_to_filename lower pattern_header =
     (if pattern_header = [] then None
      else case re_search dash_rx pattern_header of
        None \<Rightarrow> None
      | Some m \<Rightarrow>
          (let pattern_name = strip (group m 1);
               f0 = lower pattern_name;
               f1 = str_replace f0 (py '' / '') (py ''_'');
               f2 = str_replace f1 (py ''/'') (py ''_'');
               f3 = str_replace f2 (py '' '') (py ''_'');
               f4 = str_replace f3 (py ''('') [];
               f5 = str_replace f4 (py '')'') [];
               f6 = str_replace f5 (py ''-'') (py ''_'');
               f7 = str_replace f6 (py ''&'') [];
               f8 = str_replace f7 (py '','') [];
               f9 = (if \<not> endswith f8 (py ''_pattern'') then f8 @ py ''_pattern'' else f8)
           in case map_of filename_mapping f9 of Some f \<Rightarrow> Some f | None \<Rightarrow> Some f9))"

text \<open>
  The three warnings \<open>main\<close> prints, and what the loop body decides for one section:
  nothing to do, a warning and \<open>continue\<close>, or the text to store in the line after the
  section header. \<open>files\<close> maps the name of a file in \<open>build/diagrams\<close> to its content.
\<close>

datatype warning =
    NoPatternName nat
  | CannotParse pystr
  | FileNotFound pystr

datatype outcome = Skip | Warn warning | Insert pystr pystr pystr

definition section_outcome ::
  "(pystr \<Rightarrow> pystr) \<Rightarrow> (pystr \<Rightarrow> pystr option) \<Rightarrow> pystr list \<Rightarrow> nat \<Rightarrow> outcome" where
  "section_outcome lower files lines section_line_num =
     (if section_line_num + 1 < length lines \<and> strip (lines ! (section_line_num + 1)) = [] then
        (case find_pattern_name_before_line lines section_line_num of
           None \<Rightarrow> Warn (NoPatternName (section_line_num + 1))
         | Some pattern_header \<Rightarrow>
             if pattern_header = [] then Warn (NoPatternName (section_line_num + 1))
             else (case pattern_name_to_filename lower pattern_header of
               None \<Rightarrow> Warn (CannotParse (strip pattern_header))
             | Some pattern_name \<Rightarrow>
                 if pattern_name = [] then Warn (CannotParse (strip pattern_header))
                 else (case files (pattern_name @ py ''.py'') of
                   None \<Rightarrow> Warn (FileNotFound (pattern_name @ py ''.py''))
                 | Some python_code \<Rightarrow>
                     Insert (strip pattern_header) pattern_name python_code)))
      else Skip)"

record snippets =
  text_lines :: "pystr list"
  modifications :: "(nat \<times> pystr \<times> pystr \<times> nat) list"
  warnings :: "warning list"

definition insert_text :: "pystr \<Rightarrow> pystr" where
  "insert_text python_code = py ''\<newline>```python\<newline>'' @ python_code @ py ''```\<newline>\<newline>''"

definition section_step ::
  "(pystr \<Rightarrow> pystr) \<Rightarrow> (pystr \<Rightarrow> pystr option) \<Rightarrow> snippets \<Rightarrow> nat \<Rightarrow> snippets" where
  "section_step lower files st section_line_num =
     (case section_outcome lower files (text_lines st) section_line_num of
        Skip \<Rightarrow> st
      | Warn w \<Rightarrow> st\<lparr>warnings := warnings st @ [w]\<rparr>
      | Insert pattern filename python_code \<Rightarrow>
          st\<lparr>text_lines := (text_lines st)[section_line_num + 1 := insert_text python_code],
              modifications := modifications st @
                  [(section_line_num + 1, pattern, filename, length python_code)]\<rparr>)"

definition snippet_sections :: "pystr list \<Rightarrow> nat list" where
  "snippet_sections ls =
     filter (\<lambda>i. strip (ls ! i) = py ''## Python Architecture Diagram Snippet'') [0..<length ls]"

definition add_python_snippets ::
  "(pystr \<Rightarrow> pystr) \<Rightarrow> (pystr \<Rightarrow> pystr option) \<Rightarrow> pystr \<Rightarrow> snippets" where
  "add_python_snippets lower files content =
     (let ls = readlines content in
      foldl (section_step lower files) \<lparr>text_lines = ls, modifications = [], warnings = []\<rparr>
        (rev (snippet_sections ls)))"

definition add_python_snippets_output ::
  "(pystr \<Rightarrow> pystr) \<Rightarrow> (pystr \<Rightarrow> pystr option) \<Rightarrow> pystr \<Rightarrow> pystr" where
  "add_python_snippets_output lower files content =
     writelines (text_lines (add_python_snippets lower files content))"


text \<open>The text that an outcome stores, and an input to run the script on.\<close>

fun inserted :: "outcome \<Rightarrow> pystr option" where
  "inserted (Insert h f code) = Some (insert_text code)"
| "inserted out = None"

definition snippet_example :: pystr where
  "snippet_example = py ''a\<newline>## CONTINUED: -x\<newline>## Python Architecture Diagram Snippet\<newline>\<newline>## CONTINUED: -y\<newline>## Python Architecture Diagram Snippet\<newline>\<newline>''"

section \<open>generate\_diagrams.py\<close>

text \<open>
  \<open>replace_ascii_diagrams_with_images\<close>: the table of chapter headings, the box-drawing
  characters of the two tests (the second has U+253C in addition), and the tests on a line.
\<close>

definition primary_insertions :: "(pystr \<times> pystr) list" where
  "primary_insertions =
     [(py ''# Virtualized Infinite List with Dynamic Heights'', py ''virtuallist-architecture.png''),
      (py ''# High-Fidelity Pixel-Perfect Zoomable Canvas'', py ''canvas-architecture.png''),
      (py ''# Reactive Formulas Engine (Spreadsheet-like)'', py ''reactive-engine-architecture.png''),
      (py ''# DOM-Based Spreadsheet Renderer (Excel Clone)'', py ''spreadsheet-architecture.png''),
      (py ''# High-Volume Real-Time Charts with Backfill'', py ''charts-architecture.png'')]"

definition box_chars :: "nat list" where
  "box_chars = [0x250C, 0x2502, 0x251C, 0x2514, 0x2500, 0x2510, 0x2518, 0x2524, 0x252C, 0x2534]"

definition box_chars_overview :: "nat list" where
  "box_chars_overview = box_chars @ [0x253C]"

definition has_any :: "nat list \<Rightarrow> pystr \<Rightarrow> bool" where
  "has_any chars line = list_ex (\<lambda>char. char \<in> set line) chars"

definition is_fence :: "pystr \<Rightarrow> bool" where
  "is_fence line = startswith (strip line) (py ''```'')"

definition is_blank :: "pystr \<Rightarrow> bool" where
  "is_blank line = (strip line = [])"

text \<open>
  The look-ahead \<^verbatim>\<open>for j in range(i, min(i + 20, len(lines)))\<close> over \<open>lines[i:i+20]\<close>, and the
  search for the closing fence from \<open>k = j + 1\<close> on.
\<close>

fun look_ahead :: "pystr list \<Rightarrow> bool" where
  "look_ahead [] = False"
| "look_ahead (l # ls) =
     (if has_any box_chars l then True else if is_fence l then False else look_ahead ls)"

fun find_close :: "pystr list \<Rightarrow> nat \<Rightarrow> bool \<Rightarrow> (nat \<times> bool) option" where
  "find_close [] k is_ascii_block = None"
| "find_close (l # ls) k is_ascii_block =
     (if is_fence l then Some (k, is_ascii_block)
      else find_close ls (k + 1) (is_ascii_block \<or> has_any box_chars_overview l))"

definition diagram_text :: "pystr \<Rightarrow> pystr \<Rightarrow> pystr" where
  "diagram_text diagram_dir diagram =
     py ''\<newline>![Architecture Diagram]('' @ diagram_dir @ py ''/'' @ diagram @ py '')\<newline>\<newline>''"

text \<open>The variables of the \<open>while\<close> loop.\<close>

record scan =
  scan_i :: nat
  current_section :: "pystr option"
  modified_lines :: "pystr list"
  inserted_count :: nat
  removed_count :: nat
  scan_in_code_block :: bool
  skip_until_code_end :: bool

text \<open>
  The parts of the loop body: taking over the blank line after a heading, the insertion at a
  chapter heading, the removal of the block after an overview line, the insertion at an
  overview line, and the handling of a line that is kept.
\<close>

definition next_blank :: "pystr list \<Rightarrow> scan \<Rightarrow> scan" where
  "next_blank ls st =
     (if scan_i st + 1 < length ls \<and> is_blank (ls ! (scan_i st + 1))
      then st\<lparr>scan_i := scan_i st + 1, modified_lines := modified_lines st @ [ls ! (scan_i st + 1)]\<rparr>
      else st)"

definition at_heading :: "pystr \<Rightarrow> pystr list \<Rightarrow> pystr \<Rightarrow> scan \<Rightarrow> scan" where
  "at_heading diagram_dir ls line st =
     (case map_of primary_insertions (strip line) of
        None \<Rightarrow> st
      | Some diagram \<Rightarrow>
          (let st1 = next_blank ls (st\<lparr>current_section := Some diagram\<rparr>)
           in st1\<lparr>modified_lines := modified_lines st1 @ [diagram_text diagram_dir diagram],
                  inserted_count := inserted_count st1 + 1\<rparr>))"

definition skip_block :: "pystr list \<Rightarrow> scan \<Rightarrow> scan" where
  "skip_block ls st =
     (let j = scan_i st + 1 + length (takeWhile is_blank (drop (scan_i st + 1) ls))
      in if j < length ls \<and> strip (ls ! j) = py ''```'' then
           (case find_close (drop (j + 1) ls) (j + 1) False of
              Some (k, True) \<Rightarrow>
                st\<lparr>scan_i := k + length (takeWhile is_blank (drop (k + 1) ls)),
                    removed_count := removed_count st + 1\<rparr>
            | _ \<Rightarrow> st)
         else st)"

definition at_overview :: "pystr \<Rightarrow> pystr list \<Rightarrow> pystr \<Rightarrow> scan \<Rightarrow> scan" where
  "at_overview diagram_dir ls line st =
     (case current_section st of
        None \<Rightarrow> st
      | Some section \<Rightarrow>
          if \<not> scan_in_code_block st \<and> section \<noteq> [] \<and> strip line = py ''**Architecture Overview**:'' then
            (let st1 = next_blank ls st;
                 st2 = st1\<lparr>modified_lines := modified_lines st1 @ [diagram_text diagram_dir section],
                           inserted_count := inserted_count st1 + 1\<rparr>
             in skip_block ls st2)
          else st)"

definition keep_line :: "pystr \<Rightarrow> pystr list \<Rightarrow> pystr \<Rightarrow> scan \<Rightarrow> scan" where
  "keep_line diagram_dir ls line st =
     (if skip_until_code_end st then st\<lparr>scan_i := scan_i st + 1\<rparr>
      else
        (let st1 = st\<lparr>modified_lines := modified_lines st @ [line]\<rparr>;
             st2 = at_heading diagram_dir ls line st1;
             st3 = at_overview diagram_dir ls line st2
         in st3\<lparr>scan_i := scan_i st3 + 1\<rparr>))"

definition scan_step :: "pystr \<Rightarrow> pystr list \<Rightarrow> scan \<Rightarrow> scan" where
  "scan_step diagram_dir ls st =
     (let line = ls ! scan_i st in
      if is_fence line then
        if \<not> scan_in_code_block st \<and> current_section st \<noteq> None \<and> current_section st \<noteq> Some []
            \<and> look_ahead (take 20 (drop (scan_i st) ls)) then
          st\<lparr>skip_until_code_end := True, removed_count := removed_count st + 1, scan_i := scan_i st + 1\<rparr>
        else
          (let st1 = st\<lparr>scan_in_code_block := \<not> scan_in_code_block st\<rparr>
           in if \<not> scan_in_code_block st1 \<and> skip_until_code_end st1
              then st1\<lparr>skip_until_code_end := False, scan_i := scan_i st1 + 1\<rparr>
              else keep_line diagram_dir ls line st1)
      else keep_line diagram_dir ls line st)"

text \<open>Every pass through the loop body moves \<open>i\<close> forward, so the loop ends.\<close>

lemma find_close_ge: "find_close ls k f = Some (k', b) \<Longrightarrow> k \<le> k'"
  by (induction ls arbitrary: k f) (auto split: if_splits dest: Suc_leD)

lemma next_blank_i: "scan_i st \<le> scan_i (next_blank ls st)"
  by (simp add: next_blank_def)

lemma at_heading_i: "scan_i st \<le> scan_i (at_heading d ls line st)"
  using next_blank_i [of "st\<lparr>current_section := Some _\<rparr>" ls]
  by (auto simp: at_heading_def Let_def split: option.splits)

lemma skip_block_i: "scan_i st \<le> scan_i (skip_block ls st)"
  by (auto simp: skip_block_def Let_def split: option.splits bool.splits dest!: find_close_ge)

lemma at_overview_i: "scan_i st \<le> scan_i (at_overview d ls line st)"
proof -
  have "scan_i st \<le> scan_i (skip_block ls ((next_blank ls st)\<lparr>modified_lines := m, inserted_count := n\<rparr>))" for m n
    using skip_block_i [of "(next_blank ls st)\<lparr>modified_lines := m, inserted_count := n\<rparr>" ls]
      next_blank_i [of st ls]
    by simp
  then show ?thesis
    by (simp add: at_overview_def Let_def split: option.splits)
qed

lemma keep_line_i: "scan_i st < scan_i (keep_line d ls line st)"
proof -
  have "scan_i st \<le> scan_i (at_overview d ls line (at_heading d ls line (st\<lparr>modified_lines := m\<rparr>)))" for m
    using at_overview_i [of "at_heading d ls line (st\<lparr>modified_lines := m\<rparr>)" d ls line]
      at_heading_i [of "st\<lparr>modified_lines := m\<rparr>" d ls line]
    by simp
  then show ?thesis
    by (simp add: keep_line_def Let_def less_Suc_eq_le)
qed

lemma scan_step_i: "scan_i st < scan_i (scan_step d ls st)"
proof -
  have "scan_i st < scan_i (keep_line d ls l (st\<lparr>scan_in_code_block := b\<rparr>))" for l b
    using keep_line_i [of "st\<lparr>scan_in_code_block := b\<rparr>" d ls l] by simp
  with keep_line_i [of st d ls] show ?thesis
    by (simp add: scan_step_def Let_def)
qed

function scan_loop :: "pystr \<Rightarrow> pystr list \<Rightarrow> scan \<Rightarrow> scan" where
  "scan_loop diagram_dir ls st =
     (if scan_i st < length ls then scan_loop diagram_dir ls (scan_step diagram_dir ls st) else st)"
  by pat_completeness auto
termination
proof (relation "measure (\<lambda>(d, ls, st). length ls - scan_i st)")
  show "wf (measure (\<lambda>(d, ls, st). length ls - scan_i st))" by simp
next
  fix diagram_dir :: pystr and ls :: "pystr list" and st :: scan
  assume "scan_i st < length ls"
  with scan_step_i [of st diagram_dir ls]
  show "((diagram_dir, ls, scan_step diagram_dir ls st), (diagram_dir, ls, st))
      \<in> measure (\<lambda>(d, ls, st). length ls - scan_i st)"
    by simp
qed

declare scan_loop.simps [simp del]

definition scan_lines :: "pystr \<Rightarrow> pystr list \<Rightarrow> scan" where
  "scan_lines diagram_dir ls =
     scan_loop diagram_dir ls
       \<lparr>scan_i = 0, current_section = None, modified_lines = [], inserted_count = 0,
        removed_count = 0, scan_in_code_block = False, skip_until_code_end = False\<rparr>"

text \<open>A chapter with a fenced drawing that does not follow an overview line.\<close>

definition box_example :: "pystr list" where
  "box_example =
     [py ''# Virtualized Infinite List with Dynamic Heights\<newline>'', py ''\<newline>'', py ''```\<newline>'',
      [0x250C, 0x2500, 0x2510, 10], py ''```\<newline>'']"

text \<open>
  The host the script runs on: whether \<open>import graphviz\<close> succeeds, whether \<open>which dot\<close>
  finds the binary, what rendering a diagram yields (\<open>None\<close> when \<open>render\<close> raises), and the
  command line. A run records the files, what was rendered, read, written and printed, and
  the exception that ended it, if any.
\<close>

record host =
  graphviz_importable :: bool
  dot_on_path :: bool
  render_png :: "pystr \<Rightarrow> pystr option"
  argv :: "pystr list"

record run =
  run_files :: "pystr \<rightharpoonup> pystr"
  generated :: "pystr list"
  files_read :: "pystr list"
  files_written :: "pystr list"
  printed :: "pystr list"
  run_error :: "py_error option"

definition install_dependencies :: "host \<Rightarrow> bool \<times> pystr list" where
  "install_dependencies h =
     (if \<not> graphviz_importable h then
        (False, [py ''ERROR: python3-graphviz not found.'', py ''\<newline>To install, run:'',
           py ''  sudo apt-get update'', py ''  sudo apt-get install graphviz python3-graphviz'',
           py ''\<newline>Or create a virtual environment:'', py ''  python3 -m venv venv'',
           py ''  source venv/bin/activate'', py ''  pip install graphviz''])
      else if \<not> dot_on_path h then
        (False, [py ''WARNING: Graphviz system package not found.'',
           py ''Install with: sudo apt-get install graphviz''])
      else (True, []))"

definition diagram_names :: "pystr list" where
  "diagram_names = [py ''virtuallist-architecture'', py ''canvas-architecture'',
     py ''reactive-engine-architecture'', py ''spreadsheet-architecture'', py ''charts-architecture'']"

definition render_one :: "host \<Rightarrow> pystr \<Rightarrow> run \<Rightarrow> pystr \<Rightarrow> run" where
  "render_one h output_dir r name =
     (if graphviz_importable h then
        (let output_path = output_dir @ py ''/'' @ name in
         case render_png h name of
           Some png \<Rightarrow>
             r\<lparr>run_files := (run_files r)(output_path @ py ''.png'' \<mapsto> png),
               generated := generated r @ [output_path @ py ''.png''],
               files_written := files_written r @ [output_path @ py ''.png''],
               printed := printed r @ [py ''Generated: '' @ output_path @ py ''.png'']\<rparr>
         | None \<Rightarrow> r\<lparr>printed := printed r @ [py ''Error rendering '' @ name]\<rparr>)
      else r\<lparr>printed := printed r @ [py ''Error creating diagram'']\<rparr>)"

definition create_all_diagrams :: "host \<Rightarrow> pystr \<Rightarrow> run \<Rightarrow> run" where
  "create_all_diagrams h output_dir r = foldl (render_one h output_dir) r diagram_names"

definition replace_ascii_diagrams_with_images ::
  "pystr \<Rightarrow> pystr option \<Rightarrow> pystr \<Rightarrow> run \<Rightarrow> run" where
  "replace_ascii_diagrams_with_images markdown_file output_file diagram_dir r =
     (let out = (case output_file of None \<Rightarrow> markdown_file | Some f \<Rightarrow> f) in
      case run_files r markdown_file of
        None \<Rightarrow> r\<lparr>run_error := Some FileNotFoundError\<rparr>
      | Some content \<Rightarrow>
          (let st = scan_lines diagram_dir (readlines content) in
           r\<lparr>run_files := (run_files r)(out \<mapsto> writelines (modified_lines st)),
             files_read := files_read r @ [markdown_file],
             files_written := files_written r @ [out],
             printed := printed r @ [py ''Output written to: '' @ out]\<rparr>))"

definition main :: "host \<Rightarrow> (pystr \<rightharpoonup> pystr) \<Rightarrow> run" where
  "main h fs =
     (let r0 = \<lparr>run_files = fs, generated = [], files_read = [], files_written = [],
                 printed = [replicate 60 (of_char CHR ''=''), py ''Diagram Generation Tool'',
                   replicate 60 (of_char CHR ''='')],
                 run_error = None\<rparr>;
          (ok, messages) = install_dependencies h
      in if \<not> ok then
           r0\<lparr>printed := printed r0 @ messages @ [py ''\<newline>Please install Graphviz and try again.'']\<rparr>
         else
           (let r1 = create_all_diagrams h (py ''diagrams'') (r0\<lparr>printed := printed r0 @ messages\<rparr>)
            in if length (argv h) > 1 then
                 replace_ascii_diagrams_with_images (argv h ! 1)
                   (if length (argv h) > 2 then Some (argv h ! 2) else None) (py ''diagrams'') r1
               else r1))"

section \<open>replace\_code\_with\_png.py\<close>









section \<open>convert\_to\_org.py\<close>






















section \<open>Facts about the matcher and the substitution loop\<close>

text \<open>
  Unfolding rules for running the loops on a given text: they apply to \<open>[]\<close> and to
  \<open>x # xs\<close> only, never to a text that is still a variable.
\<close>

lemmas sub_loop_eval = sub_loop.simps [of _ _ _ _ "[]"] sub_loop.simps [of _ _ _ _ "_ # _"]

lemmas replace_from_eval = replace_from.simps [of _ _ "[]"] replace_from.simps [of _ _ "_ # _"]

lemma rest_advance: "rest (advance k c) = drop k (rest c)"
  by (simp add: advance_def)

lemma seen_advance: "seen (advance k c) = rev (take k (rest c)) @ seen c"
  by (simp add: advance_def)

lemma run_len_le: "run_len p hi s \<le> length s"
  by (auto simp: run_len_def Let_def length_takeWhile_le split: option.splits intro: le_trans [OF min.cobounded2])

lemma rx_run_suffix:
  "m \<in> set (rx_run r c) \<Longrightarrow> \<exists>w. rest c = w @ rest m \<and> seen m = rev w @ seen c"
proof (induction r arbitrary: c m)
  case (Sym p)
  then show ?case
    by (cases "rest c") (auto simp: advance_def split: if_splits)
next
  case (Rep p lo hi g)
  then obtain k where "m = advance k c"
    by (auto simp: Let_def split: if_splits)
  then have "rest c = take k (rest c) @ rest m \<and> seen m = rev (take k (rest c)) @ seen c"
    by (simp add: advance_def)
  then show ?case by blast
next
  case (Seq a b)
  then obtain c' where c': "c' \<in> set (rx_run a c)" and m: "m \<in> set (rx_run b c')"
    by auto
  from Seq.IH(1) [OF c'] obtain w where w: "rest c = w @ rest c'" "seen c' = rev w @ seen c"
    by blast
  from Seq.IH(2) [OF m] obtain v where v: "rest c' = v @ rest m" "seen m = rev v @ seen c'"
    by blast
  from w v have "rest c = (w @ v) @ rest m \<and> seen m = rev (w @ v) @ seen c"
    by simp
  then show ?case by blast
next
  case (Grp i r)
  then obtain m' where m': "m' \<in> set (rx_run r c)" and m: "m = m'\<lparr>groups := (i, consumed c m') # groups m'\<rparr>"
    by auto
  from Grp.IH [OF m'] m show ?case by simp
qed (auto split: if_splits list.splits)

lemma rx_run_min:
  "m \<in> set (rx_run r c) \<Longrightarrow> length (rest m) + rx_min r \<le> length (rest c)"
proof (induction r arbitrary: c m)
  case (Sym p)
  then show ?case
    by (cases "rest c") (auto simp: advance_def split: if_splits)
next
  case (Rep p lo hi g)
  then obtain k where k: "m = advance k c" "lo \<le> k" "k \<le> run_len p hi (rest c)"
    by (auto simp: Let_def split: if_splits)
  with run_len_le [of p hi "rest c"] show ?case
    by (simp add: advance_def)
next
  case (Seq a b)
  then obtain c' where c': "c' \<in> set (rx_run a c)" and m: "m \<in> set (rx_run b c')"
    by auto
  from Seq.IH(1) [OF c'] Seq.IH(2) [OF m] show ?case by simp
next
  case (Alt a b)
  then show ?case by fastforce
next
  case (Grp i r)
  then obtain m' where m': "m' \<in> set (rx_run r c)" and m: "m = m'\<lparr>groups := (i, consumed c m') # groups m'\<rparr>"
    by auto
  from Grp.IH [OF m'] m show ?case by simp
qed (auto split: if_splits list.splits)

lemma rx_run_le: "m \<in> set (rx_run r c) \<Longrightarrow> length (rest m) \<le> length (rest c)"
  using rx_run_min [of m r c] by simp

lemma sub_loop_progress:
  assumes "0 < rx_min r"
  shows "sub_loop r f adv bef s =
     (case rx_run r (start bef s) of
        m # ms \<Rightarrow> f m @ sub_loop r f False (seen m) (rest m)
      | [] \<Rightarrow> (case s of [] \<Rightarrow> [] | x # xs \<Rightarrow> x # sub_loop r f False (x # bef) xs))"
proof -
  have short: "length (rest m) < length s" if "m \<in> set (rx_run r (start bef s))" for m
    using rx_run_min [OF that] assms by (simp add: start_def)
  then have "filter (\<lambda>m. \<not> adv \<or> length (rest m) < length s) (rx_run r (start bef s))
      = rx_run r (start bef s)"
    by (simp add: filter_id_conv)
  with short show ?thesis
    by (subst sub_loop.simps) (auto split: list.splits)
qed

lemma rx_run_Nil: "0 < rx_min r \<Longrightarrow> rx_run r (start bef []) = []"
proof (rule ccontr)
  assume pos: "0 < rx_min r" and "rx_run r (start bef []) \<noteq> []"
  then obtain m where "m \<in> set (rx_run r (start bef []))"
    by (cases "rx_run r (start bef [])") auto
  from rx_run_min [OF this] pos show False by (simp add: start_def)
qed

lemma sub_loop_Nil: "0 < rx_min r \<Longrightarrow> sub_loop r f adv bef [] = []"
  by (simp add: sub_loop_progress rx_run_Nil)

lemma sub_loop_match:
  "0 < rx_min r \<Longrightarrow> rx_run r (start bef s) = m # ms \<Longrightarrow>
     sub_loop r f adv bef s = f m @ sub_loop r f False (seen m) (rest m)"
  by (simp add: sub_loop_progress)

lemma sub_loop_skip:
  "0 < rx_min r \<Longrightarrow> rx_run r (start bef (x # xs)) = [] \<Longrightarrow>
     sub_loop r f adv bef (x # xs) = x # sub_loop r f False (x # bef) xs"
  by (simp add: sub_loop_progress)

lemma match_shorter:
  "0 < rx_min r \<Longrightarrow> rx_run r (start bef s) = m # ms \<Longrightarrow> length (rest m) < length s"
  using rx_run_min [of m r "start bef s"] by (simp add: start_def)

lemma sub_loop_const_prefix:
  assumes pos: "0 < rx_min r"
  shows "prefix w (sub_loop r (\<lambda>m. h # t) adv bef s) \<Longrightarrow> h \<notin> set w \<Longrightarrow> prefix w s"
proof (induction w arbitrary: adv bef s)
  case Nil
  then show ?case by simp
next
  case (Cons a w)
  from Cons.prems(2) have ah: "a \<noteq> h" and hw: "h \<notin> set w" by auto
  show ?case
  proof (cases "rx_run r (start bef s)")
    case (Cons m ms)
    from Cons.prems(1) ah show ?thesis
      by (simp add: sub_loop_match [OF pos Cons])
  next
    case none: Nil
    show ?thesis
    proof (cases s)
      case Nil
      with Cons.prems(1) show ?thesis
        by (simp add: sub_loop_Nil [OF pos])
    next
      case (Cons x xs)
      from none Cons.prems(1)
      have "a = x" and "prefix w (sub_loop r (\<lambda>m. h # t) False (x # bef) xs)"
        unfolding Cons by (simp_all add: sub_loop_skip [OF pos])
      with Cons.IH [OF _ hw] Cons show ?thesis by simp
    qed
  qed
qed

lemma concat_greedy:
  assumes "lo \<le> n" and "\<And>k. lo \<le> k \<Longrightarrow> k < n \<Longrightarrow> F k = []"
  shows "concat (map F (rev [lo..<Suc n])) = F n"
proof -
  have "concat (map F (rev [lo..<n])) = []"
    using assms(2) by (induction n) auto
  with assms(1) show ?thesis by simp
qed

lemma takeWhile_nth_holds: "k < length (takeWhile p s) \<Longrightarrow> \<exists>t. drop k s = (s ! k) # t \<and> p (s ! k)"
proof -
  assume k: "k < length (takeWhile p s)"
  then have "k < length s" using length_takeWhile_le [of p s] by simp
  then have "drop k s = (s ! k) # drop (Suc k) s" by (simp add: Cons_nth_drop_Suc)
  moreover from k have "p (s ! k)" using nth_mem [OF k] set_takeWhileD [of _ p s] takeWhile_nth [OF k] by metis
  ultimately show ?thesis by blast
qed


lemma take_consumed: "take (length s - (length s - k)) s = take k s"
  by (cases "k \<le> length s") simp_all

lemma rest_start [simp]: "rest (start bef s) = s"
  by (simp add: start_def)

lemma seen_start [simp]: "seen (start bef s) = bef"
  by (simp add: start_def)

lemma groups_start [simp]: "groups (start bef s) = []"
  by (simp add: start_def)

lemma drop_eq_Cons_take:
  assumes "drop n l = x # xs"
  shows "take (Suc n) l = take n l @ [x]" and "drop (Suc n) l = xs"
proof -
  from assms have n: "n < length l" by (cases "n < length l") auto
  from assms have "l ! n = x" by (rule nth_via_drop)
  with n show "take (Suc n) l = take n l @ [x]" by (simp add: take_Suc_conv_app_nth)
  have "drop (Suc n) l = tl (drop n l)" by (simp add: drop_Suc tl_drop)
  with assms show "drop (Suc n) l = xs" by simp
qed

lemma groups_advance: "groups (advance k c) = groups c"
  by (simp add: advance_def)

lemma rx_run_Bol_start: "rx_run (Seq Bol r) (start [] s) = rx_run r (start [] s)"
  by (simp add: start_def)

lemma rx_run_Sym_reject: "rest c = x # xs \<Longrightarrow> \<not> q x \<Longrightarrow> rx_run (Seq (Sym q) r) c = []"
  by simp

lemma rx_run_greedy:
  assumes rej: "\<And>c x xs. rest c = x # xs \<Longrightarrow> p x \<Longrightarrow> rx_run r c = []"
  shows "rx_run (Seq (Rep p lo None True) r) c =
     (let n = length (takeWhile p (rest c)) in if lo \<le> n then rx_run r (advance n c) else [])"
proof (cases "lo \<le> length (takeWhile p (rest c))")
  case True
  have "rx_run r (advance k c) = []" if "k < length (takeWhile p (rest c))" for k
  proof -
    from takeWhile_nth_holds [OF that] obtain t
      where "drop k (rest c) = (rest c ! k) # t" and "p (rest c ! k)" by blast
    then show ?thesis by (intro rej) (simp_all add: rest_advance)
  qed
  then have "concat (map (\<lambda>k. rx_run r (advance k c)) (rev [lo..<Suc (length (takeWhile p (rest c)))]))
      = rx_run r (advance (length (takeWhile p (rest c))) c)"
    using True by (intro concat_greedy) simp_all
  with True show ?thesis
    by (simp add: run_len_def Let_def comp_def del: upt_Suc)
next
  case False
  then show ?thesis by (simp add: run_len_def Let_def)
qed

lemma rx_run_greedy_group:
  assumes rej: "\<And>c x xs. rest c = x # xs \<Longrightarrow> p x \<Longrightarrow> rx_run r c = []"
  shows "rx_run (Seq (Grp i (Rep p lo None True)) r) c =
     (let n = length (takeWhile p (rest c)) in
      if lo \<le> n then rx_run r ((advance n c)\<lparr>groups := (i, take n (rest c)) # groups c\<rparr>) else [])"
proof (cases "lo \<le> length (takeWhile p (rest c))")
  case True
  let ?F = "\<lambda>k. rx_run r ((advance k c)\<lparr>groups := (i, take k (rest c)) # groups c\<rparr>)"
  have "?F k = []" if "k < length (takeWhile p (rest c))" for k
  proof -
    from takeWhile_nth_holds [OF that] obtain t
      where "drop k (rest c) = (rest c ! k) # t" and "p (rest c ! k)" by blast
    then show ?thesis by (intro rej) (simp_all add: rest_advance)
  qed
  then have "concat (map ?F (rev [lo..<Suc (length (takeWhile p (rest c)))]))
      = ?F (length (takeWhile p (rest c)))"
    using True by (intro concat_greedy) simp_all
  moreover have "(advance k c)\<lparr>groups := (i, consumed c (advance k c)) # groups (advance k c)\<rparr>
      = (advance k c)\<lparr>groups := (i, take k (rest c)) # groups c\<rparr>" for k
    by (simp add: consumed_def advance_def take_consumed)
  ultimately show ?thesis using True
    by (simp add: run_len_def Let_def comp_def del: upt_Suc)
next
  case False
  then show ?thesis by (simp add: run_len_def Let_def)
qed

lemma startswith_append: "startswith s old \<Longrightarrow> s = old @ drop (length old) s"
  by (metis append_take_drop_id startswith_def)

lemma sub_loop_const_length:
  assumes pos: "0 < rx_min r" and rep: "length rep \<le> rx_min r"
  shows "length (sub_loop r (\<lambda>m. rep) adv bef s) \<le> length s"
proof (induction s arbitrary: adv bef rule: length_induct)
  case (1 s)
  show ?case
  proof (cases "rx_run r (start bef s)")
    case (Cons m ms)
    then have "m \<in> set (rx_run r (start bef s))" by simp
    from rx_run_min [OF this] have len: "length (rest m) + rx_min r \<le> length s" by simp
    with pos have "length (rest m) < length s" by simp
    with 1 have "length (sub_loop r (\<lambda>m. rep) False (seen m) (rest m)) \<le> length (rest m)"
      by simp
    with len rep show ?thesis
      by (simp add: sub_loop_match [OF pos Cons])
  next
    case none: Nil
    show ?thesis
    proof (cases s)
      case Nil
      then show ?thesis by (simp add: sub_loop_Nil [OF pos])
    next
      case (Cons x xs)
      with 1 have "length (sub_loop r (\<lambda>m. rep) False (x # bef) xs) \<le> length xs"
        by simp
      with none show ?thesis unfolding Cons
        by (simp add: sub_loop_skip [OF pos])
    qed
  qed
qed

lemma sub_loop_const_set:
  assumes pos: "0 < rx_min r"
  shows "set (sub_loop r (\<lambda>m. rep) adv bef s) \<subseteq> set s \<union> set rep"
proof (induction s arbitrary: adv bef rule: length_induct)
  case (1 s)
  show ?case
  proof (cases "rx_run r (start bef s)")
    case (Cons m ms)
    then have m: "m \<in> set (rx_run r (start bef s))" by simp
    from rx_run_suffix [OF m] obtain w where w: "s = w @ rest m" by auto
    from match_shorter [OF pos Cons] 1
    have "set (sub_loop r (\<lambda>m. rep) False (seen m) (rest m)) \<subseteq> set (rest m) \<union> set rep"
      by simp
    moreover from w have "set (rest m) \<subseteq> set s" by (metis set_append Un_upper2)
    ultimately show ?thesis
      by (auto simp: sub_loop_match [OF pos Cons])
  next
    case none: Nil
    show ?thesis
    proof (cases s)
      case Nil
      then show ?thesis by (simp add: sub_loop_Nil [OF pos])
    next
      case (Cons x xs)
      with 1 have "set (sub_loop r (\<lambda>m. rep) False (x # bef) xs) \<subseteq> set xs \<union> set rep"
        by simp
      with none show ?thesis unfolding Cons
        by (auto simp: sub_loop_skip [OF pos])
    qed
  qed
qed

lemma replace_from_length:
  "length new \<le> length old \<Longrightarrow> length (replace_from old new s) \<le> length s"
proof (induction old new s rule: replace_from.induct)
  case (1 old new s)
  show ?case
  proof (cases "old \<noteq> [] \<and> startswith s old")
    case True
    with "1.IH"(1) "1.prems"
    have "length (replace_from old new (drop (length old) s)) \<le> length s - length old"
      by simp
    moreover from True have "length old \<le> length s"
      by (metis startswith_append length_append le_add1)
    ultimately show ?thesis using True "1.prems"
      by (subst replace_from.simps) simp
  next
    case False
    show ?thesis
    proof (cases s)
      case Nil
      with False show ?thesis by (subst replace_from.simps) auto
    next
      case (Cons x xs)
      with "1.IH"(2) False "1.prems" have "length (replace_from old new xs) \<le> length xs"
        by simp
      with False Cons show ?thesis by (subst replace_from.simps) auto
    qed
  qed
qed

lemma replace_from_set: "set (replace_from old new s) \<subseteq> set s \<union> set new"
proof (induction old new s rule: replace_from.induct)
  case (1 old new s)
  show ?case
  proof (cases "old \<noteq> [] \<and> startswith s old")
    case True
    with "1.IH"(1)
    have "set (replace_from old new (drop (length old) s)) \<subseteq> set (drop (length old) s) \<union> set new"
      by simp
    moreover have "set (drop (length old) s) \<subseteq> set s" by (rule set_drop_subset)
    ultimately show ?thesis using True
      by (subst replace_from.simps) auto
  next
    case False
    show ?thesis
    proof (cases s)
      case Nil
      with False show ?thesis by (subst replace_from.simps) auto
    next
      case (Cons x xs)
      with "1.IH"(2) False have "set (replace_from old new xs) \<subseteq> set xs \<union> set new"
        by simp
      with False Cons show ?thesis by (subst replace_from.simps) auto
    qed
  qed
qed

lemma str_replace_delete_length: "length (str_replace s old []) \<le> length s"
  by (simp add: str_replace_def replace_from_length)

lemma str_replace_delete_set: "set (str_replace s old []) \<subseteq> set s"
  using replace_from_set [of old "[]" s] by (auto simp: str_replace_def)

lemma mojibake_length: "length (foldl (\<lambda>t old. str_replace t old []) s olds) \<le> length s"
proof (induction olds arbitrary: s)
  case Nil
  show ?case by simp
next
  case (Cons old olds)
  from Cons [of "str_replace s old []"] str_replace_delete_length [of s old]
  show ?case by simp
qed

lemma mojibake_set: "set (foldl (\<lambda>t old. str_replace t old []) s olds) \<subseteq> set s"
proof (induction olds arbitrary: s)
  case Nil
  show ?case by simp
next
  case (Cons old olds)
  from Cons [of "str_replace s old []"] str_replace_delete_set [of s old]
  show ?case by auto
qed

section \<open>replace\_br\_tags.py: no tag survives\<close>

lemma br_rx_min_pos: "0 < rx_min br_rx"
  by (simp add: br_rx_def)


lemma br_rx_min: "rx_min br_rx = 4"
  by (simp add: br_rx_def)

lemma br_rx_matches: "br_at s \<Longrightarrow> rx_run br_rx (start bef s) \<noteq> []"
  by (auto simp: br_at_def br_rx_def start_def lit_def one_of_def py_def advance_def run_len_def is_space_def)

lemma replace_br_loop:
  "\<not> br_at (drop i (sub_loop br_rx (\<lambda>m. [NL]) adv bef s))"
proof (induction s arbitrary: adv bef i rule: length_induct)
  case (1 s)
  have pos: "0 < rx_min br_rx" by (simp add: br_rx_min)
  show ?case
  proof (cases "rx_run br_rx (start bef s)")
    case (Cons m ms)
    note out = sub_loop_match [OF pos Cons, of "\<lambda>m. [NL]" adv]
    note short = match_shorter [OF pos Cons]
    show ?thesis
    proof (cases i)
      case 0
      then show ?thesis unfolding out by (simp add: br_at_def NL_def)
    next
      case (Suc j)
      from 1 short have "\<not> br_at (drop j (sub_loop br_rx (\<lambda>m. [NL]) False (seen m) (rest m)))"
        by simp
      with Suc show ?thesis unfolding out by simp
    qed
  next
    case none: Nil
    show ?thesis
    proof (cases s)
      case Nil
      then show ?thesis
        by (simp add: sub_loop_Nil [OF pos] br_at_def)
    next
      case (Cons x xs)
      from none have out: "sub_loop br_rx (\<lambda>m. [NL]) adv bef s
          = x # sub_loop br_rx (\<lambda>m. [NL]) False (x # bef) xs"
        unfolding Cons by (rule sub_loop_skip [OF pos])
      show ?thesis
      proof (cases i)
        case 0
        show ?thesis
        proof
          assume "br_at (drop i (sub_loop br_rx (\<lambda>m. [NL]) adv bef s))"
          with 0 out obtain a b v where x: "x = of_char CHR ''<''"
            and rest: "sub_loop br_rx (\<lambda>m. [NL]) False (x # bef) xs = a # b # of_char CHR ''>'' # v"
            and ab: "a \<in> {of_char CHR ''b'', of_char CHR ''B''}" "b \<in> {of_char CHR ''r'', of_char CHR ''R''}"
            by (auto simp: br_at_def)
          from rest have "prefix [a, b, of_char CHR ''>''] (sub_loop br_rx (\<lambda>m. [NL]) False (x # bef) xs)"
            by simp
          moreover from ab have "NL \<notin> set [a, b, of_char CHR ''>'']"
            by (auto simp: NL_def)
          ultimately have "prefix [a, b, of_char CHR ''>''] xs"
            by (rule sub_loop_const_prefix [OF pos])
          then obtain v' where "xs = a # b # of_char CHR ''>'' # v'"
            by (auto simp: prefix_def)
          with x ab Cons have "br_at s" by (auto simp: br_at_def)
          from br_rx_matches [OF this, of bef] none
          show False by simp
        qed
      next
        case (Suc j)
        from 1 Cons have "\<not> br_at (drop j (sub_loop br_rx (\<lambda>m. [NL]) False (x # bef) xs))"
          by simp
        with Suc show ?thesis unfolding out by simp
      qed
    qed
  qed
qed

text \<open>
  Claim C1. For every input text, the output of \<open>replace_br_tags\<close> contains no occurrence
  of \<open><br>\<close> in any letter case: nowhere in the output does \<open><\<close> stand before a \<open>b\<close> or
  \<open>B\<close>, an \<open>r\<close> or \<open>R\<close> and \<open>>\<close>. A tag cannot be put together from the pieces around a
  removed one, because the removed tag leaves a newline between them.
\<close>

theorem replace_br_tags_removes_all:
  "\<not> (\<exists>u a b v. replace_br_tags content = u @ py ''<'' @ [a] @ [b] @ py ''>'' @ v
       \<and> a \<in> set (py ''bB'') \<and> b \<in> set (py ''rR''))"
proof
  assume "\<exists>u a b v. replace_br_tags content = u @ py ''<'' @ [a] @ [b] @ py ''>'' @ v
       \<and> a \<in> set (py ''bB'') \<and> b \<in> set (py ''rR'')"
  then obtain u a b v where out: "replace_br_tags content = u @ py ''<'' @ [a] @ [b] @ py ''>'' @ v"
    and ab: "a \<in> set (py ''bB'')" "b \<in> set (py ''rR'')"
    by blast
  from out have "drop (length u) (replace_br_tags content) = of_char CHR ''<'' # a # b # of_char CHR ''>'' # v"
    by (simp add: py_def)
  with ab have "br_at (drop (length u) (replace_br_tags content))"
    by (auto simp: br_at_def py_def)
  then show False
    by (simp add: replace_br_tags_def re_sub_def replace_br_loop)
qed

theorem replace_br_tags_removes_all_witness:
  "replace_br_tags (py ''a<br<br>>b<BR />'') = py ''a<br\<newline>>b\<newline>''
   \<and> \<not> (\<exists>u a b v. replace_br_tags (py ''a<br<br>>b<BR />'') = u @ py ''<'' @ [a] @ [b] @ py ''>'' @ v
       \<and> a \<in> set (py ''bB'') \<and> b \<in> set (py ''rR''))"
  using replace_br_tags_removes_all [of "py ''a<br<br>>b<BR />''"]
  by (simp add: replace_br_tags_def re_sub_def sub_loop_eval br_rx_def start_def lit_def one_of_def py_def is_space_def advance_def run_len_def NL_def)

section \<open>promote\_headings.py: one level up, line by line\<close>

lemma heading_match:
  "rx_run heading_rx (start [] l) =
     (let n = length (takeWhile (lit CHR ''#'') l) in
      if 1 \<le> n \<and> (case drop n l of [] \<Rightarrow> False | c # cs \<Rightarrow> is_space c)
      then [\<lparr>seen = rev (take (Suc n) l), rest = drop (Suc n) l, groups = [(1, take n l)]\<rparr>]
      else [])"
proof -
  have rej: "rx_run (Seq (Sym is_space) Eps) c = []" if "rest c = x # xs" "lit CHR ''#'' x" for c x xs
    using that by (simp add: lit_def is_space_def)
  let ?n = "length (takeWhile (lit CHR ''#'') l)"
  have "rx_run heading_rx (start [] l)
      = rx_run (Seq (Grp 1 (Rep (lit CHR ''#'') 1 None True)) (Seq (Sym is_space) Eps)) (start [] l)"
    by (simp only: heading_rx_def cat.simps rx_run_Bol_start)
  also have "\<dots> = (if 1 \<le> ?n then rx_run (Seq (Sym is_space) Eps)
      ((advance ?n (start [] l))\<lparr>groups := (1, take ?n (rest (start [] l))) # groups (start [] l)\<rparr>) else [])"
    by (simp add: rx_run_greedy_group [of "lit CHR ''#''", OF rej] Let_def del: rx_run.simps)
  also have "\<dots> = (if 1 \<le> ?n \<and> (case drop ?n l of [] \<Rightarrow> False | c # cs \<Rightarrow> is_space c)
      then [\<lparr>seen = rev (take (Suc ?n) l), rest = drop (Suc ?n) l, groups = [(1, take ?n l)]\<rparr>]
      else [])"
    by (auto simp: start_def advance_def drop_eq_Cons_take split: list.splits)
  finally show ?thesis by (simp add: Let_def)
qed

lemma lit_hash: "lit CHR ''#'' = (\<lambda>c. c = of_char CHR ''#'')"
  by (rule ext) (simp add: lit_def)

lemma promote_line_eq: "promote_line l = (if 2 \<le> heading_level l then drop 1 l else l)"
proof -
  let ?n = "length (takeWhile (lit CHR ''#'') l)"
  have le: "?n \<le> length l" by (rule length_takeWhile_le)
  have start: "startswith l (py ''#'')" if "1 \<le> ?n"
    using that by (cases l) (auto simp: startswith_def py_def lit_def split: if_splits)
  show ?thesis
  proof (cases "1 \<le> ?n \<and> (case drop ?n l of [] \<Rightarrow> False | c # cs \<Rightarrow> is_space c)")
    case True
    then have "re_match heading_rx l
        = Some \<lparr>seen = rev (take (Suc ?n) l), rest = drop (Suc ?n) l, groups = [(1, take ?n l)]\<rparr>"
      by (simp add: re_match_def heading_match Let_def)
    moreover from True have "heading_level l = ?n"
      by (auto simp: heading_level_def lit_hash Let_def split: list.splits)
    ultimately show ?thesis using True start le
      by (auto simp: promote_line_def group_def Let_def)
  next
    case False
    then have "re_match heading_rx l = None"
      by (simp add: re_match_def heading_match Let_def)
    moreover from False have "heading_level l = 0"
      by (cases l) (auto simp: heading_level_def lit_hash Let_def split: list.splits if_splits)
    ultimately show ?thesis
      by (simp add: promote_line_def)
  qed
qed

lemma promote_loop_map: "promote_loop lines acc = acc @ map promote_line lines"
  by (induction lines arbitrary: acc) simp_all

lemma heading_level_promoted:
  assumes "2 \<le> heading_level l"
  shows "heading_level (drop 1 l) = heading_level l - 1"
proof -
  let ?h = "\<lambda>c. c = of_char CHR ''#''"
  from assms obtain t where l: "l = of_char CHR ''#'' # t"
    by (cases l) (auto simp: heading_level_def Let_def split: if_splits)
  then have n: "length (takeWhile ?h l) = Suc (length (takeWhile ?h t))" by simp
  with l show ?thesis
    by (auto simp: heading_level_def Let_def split: list.splits)
qed

text \<open>
  Claim C2. \<open>promote_headings\<close> transforms each line of the file on its own: a line of two
  or more hash marks followed by whitespace loses exactly its first character, which is a
  hash mark, so a heading of level \<open>n \<ge> 2\<close> becomes one of level \<open>n - 1\<close>; every other line (a
  level-1 heading, hash marks with no whitespace after them, a line that is no heading) is
  written back as it is.
\<close>

theorem promote_headings_lines:
  "promote_headings content
     = writelines (map (\<lambda>l. if 2 \<le> heading_level l then drop 1 l else l) (readlines content))
   \<and> (\<forall>l. 2 \<le> heading_level l \<longrightarrow>
        take 1 l = py ''#'' \<and> heading_level (drop 1 l) = heading_level l - 1)"
proof -
  have "promote_line = (\<lambda>l. if 2 \<le> heading_level l then drop 1 l else l)"
    by (rule ext) (rule promote_line_eq)
  then have "promote_headings content
      = writelines (map (\<lambda>l. if 2 \<le> heading_level l then drop 1 l else l) (readlines content))"
    by (simp add: promote_headings_def promote_loop_map)
  moreover have "take 1 l = py ''#''" if "2 \<le> heading_level l" for l
    using that by (cases l) (auto simp: heading_level_def Let_def py_def split: if_splits)
  ultimately show ?thesis
    using heading_level_promoted by blast
qed

theorem promote_headings_lines_witness:
  "promote_headings (py ''## A\<newline># B\<newline>#c\<newline>t\<newline>###\<newline>'')
     = py ''# A\<newline># B\<newline>#c\<newline>t\<newline>##\<newline>''
   \<and> heading_level (py ''## A\<newline>'') = 2 \<and> heading_level (py ''# A\<newline>'') = 1"
  using promote_headings_lines [of "py ''## A\<newline># B\<newline>#c\<newline>t\<newline>###\<newline>''"]
  by (simp add: heading_level_def py_def is_space_def readlines_def writelines_def NL_def)
section \<open>remove\_emojis.py: lengths and the enumerated ranges\<close>

lemma remove_emojis_unfold:
  "remove_emojis text0 = re_sub blank_lines_rx (\<lambda>m. [NL, NL])
     (re_sub spaces_rx (\<lambda>m. py '' '')
       (foldl (\<lambda>t old. str_replace t old []) (re_sub emoji_pattern (\<lambda>m. []) text0) mojibake))"
  by (simp add: remove_emojis_def Let_def)

lemma emoji_pattern_min: "rx_min emoji_pattern = 1"
  by (simp add: emoji_pattern_def)

lemma spaces_rx_min: "rx_min spaces_rx = 1"
  by (simp add: spaces_rx_def)

lemma blank_lines_rx_min: "rx_min blank_lines_rx = 3"
  by (simp add: blank_lines_rx_def)

text \<open>
  Claim C10. \<open>remove_emojis\<close> never lengthens its input, and so the number of removed
  characters that \<open>main\<close> prints, whenever it prints one, is not negative.
\<close>

theorem remove_emojis_never_longer:
  "length (remove_emojis s) \<le> length s
   \<and> (\<forall>removed cleaned. remove_emojis_main s = Inr (removed, cleaned) \<longrightarrow>
        cleaned = remove_emojis s \<and> 0 \<le> removed)"
proof -
  let ?s1 = "re_sub emoji_pattern (\<lambda>m. []) s"
  let ?s2 = "foldl (\<lambda>t old. str_replace t old []) ?s1 mojibake"
  let ?s3 = "re_sub spaces_rx (\<lambda>m. py '' '') ?s2"
  have "length ?s1 \<le> length s"
    unfolding re_sub_def by (rule sub_loop_const_length) (simp_all add: emoji_pattern_min)
  moreover have "length ?s2 \<le> length ?s1"
    by (rule mojibake_length)
  moreover have "length ?s3 \<le> length ?s2"
    unfolding re_sub_def by (rule sub_loop_const_length) (simp_all add: spaces_rx_min py_def)
  moreover have "length (remove_emojis s) \<le> length ?s3"
    unfolding remove_emojis_unfold re_sub_def
    by (rule sub_loop_const_length) (simp_all add: blank_lines_rx_min)
  ultimately have le: "length (remove_emojis s) \<le> length s"
    by simp
  then show ?thesis
    by (auto simp: remove_emojis_main_def Let_def split: if_splits)
qed

lemmas emoji_eval = remove_emojis_unfold re_sub_def sub_loop_eval emoji_pattern_def emoji_class_def
  emoji_ranges_def mojibake_def spaces_rx_def blank_lines_rx_def str_replace_def replace_from_eval
  startswith_def py_def NL_def lit_def is_space_def run_len_def advance_def start_def

theorem remove_emojis_never_longer_witness:
  "remove_emojis ([0x1F600, 0x2705] @ py ''a  b\<newline>\<newline>\<newline>c'') = py ''a b\<newline>\<newline>c''
   \<and> length (remove_emojis ([0x1F600, 0x2705] @ py ''a  b\<newline>\<newline>\<newline>c''))
       \<le> length ([0x1F600, 0x2705] @ py ''a  b\<newline>\<newline>\<newline>c'')
   \<and> remove_emojis_main ([0x1F600, 0x2705] @ py ''a  b\<newline>\<newline>\<newline>c'') = Inr (4, py ''a b\<newline>\<newline>c'')"
  using remove_emojis_never_longer [of "[0x1F600, 0x2705] @ py ''a  b\<newline>\<newline>\<newline>c''"]
  by (simp add: remove_emojis_main_def emoji_eval)

lemma emoji_pattern_no_match:
  "rx_run emoji_pattern (start bef (x # xs)) = [] \<Longrightarrow> \<not> emoji_class x"
  by (auto simp: emoji_pattern_def run_len_def Let_def)

lemma emoji_sub_loop_set:
  "set (sub_loop emoji_pattern (\<lambda>m. []) adv bef s) \<subseteq> {c \<in> set s. \<not> emoji_class c}"
proof (induction s arbitrary: adv bef rule: length_induct)
  case (1 s)
  have pos: "0 < rx_min emoji_pattern" by (simp add: emoji_pattern_min)
  show ?case
  proof (cases "rx_run emoji_pattern (start bef s)")
    case (Cons m ms)
    then have m: "m \<in> set (rx_run emoji_pattern (start bef s))" by simp
    from rx_run_suffix [OF m] obtain w where w: "s = w @ rest m" by auto
    from match_shorter [OF pos Cons] 1
    have "set (sub_loop emoji_pattern (\<lambda>m. []) False (seen m) (rest m))
        \<subseteq> {c \<in> set (rest m). \<not> emoji_class c}"
      by simp
    moreover from w have "set (rest m) \<subseteq> set s" by (metis set_append Un_upper2)
    ultimately show ?thesis
      by (auto simp: sub_loop_match [OF pos Cons])
  next
    case none: Nil
    show ?thesis
    proof (cases s)
      case Nil
      then show ?thesis by (simp add: sub_loop_Nil [OF pos])
    next
      case (Cons x xs)
      with 1 have "set (sub_loop emoji_pattern (\<lambda>m. []) False (x # bef) xs)
          \<subseteq> {c \<in> set xs. \<not> emoji_class c}"
        by simp
      moreover from none have "\<not> emoji_class x"
        unfolding Cons by (rule emoji_pattern_no_match)
      ultimately show ?thesis using none unfolding Cons
        by (auto simp: sub_loop_skip [OF pos])
    qed
  qed
qed

text \<open>
  What the pattern does reach: no code point of the ranges that \<open>emoji_pattern\<close> enumerates
  is left in the text that \<open>remove_emojis\<close> returns.
\<close>

lemma remove_emojis_enumerated_ranges:
  "\<forall>c \<in> set (remove_emojis s). \<not> emoji_class c"
proof
  fix c
  assume c: "c \<in> set (remove_emojis s)"
  let ?s1 = "re_sub emoji_pattern (\<lambda>m. []) s"
  let ?s2 = "foldl (\<lambda>t old. str_replace t old []) ?s1 mojibake"
  let ?s3 = "re_sub spaces_rx (\<lambda>m. py '' '') ?s2"
  have "set (remove_emojis s) \<subseteq> set ?s3 \<union> set [NL, NL]"
    unfolding remove_emojis_unfold re_sub_def
    by (rule sub_loop_const_set) (simp add: blank_lines_rx_min)
  moreover have "set ?s3 \<subseteq> set ?s2 \<union> set (py '' '')"
    unfolding re_sub_def by (rule sub_loop_const_set) (simp add: spaces_rx_min)
  moreover have "set ?s2 \<subseteq> set ?s1"
    by (rule mojibake_set)
  ultimately have "c \<in> set ?s1 \<or> c = NL \<or> c = of_char CHR '' ''"
    using c by (auto simp: py_def)
  moreover have "\<not> emoji_class NL" and "\<not> emoji_class (of_char CHR '' '')"
    by (simp_all add: emoji_class_def emoji_ranges_def NL_def)
  moreover have "set ?s1 \<subseteq> {c \<in> set s. \<not> emoji_class c}"
    unfolding re_sub_def by (rule emoji_sub_loop_set)
  ultimately show "\<not> emoji_class c"
    by auto
qed

lemma remove_emojis_enumerated_ranges_example:
  "remove_emojis [0x1F600, 0x231A, 0x2705, 65] = [0x231A, 65]
   \<and> \<not> emoji_class 0x231A \<and> \<not> emoji_class 65"
  using remove_emojis_enumerated_ranges [of "[0x1F600, 0x231A, 0x2705, 65]"]
  by (simp add: emoji_eval)

text \<open>
  Claim C3 does not hold of the code. The docstrings promise that all emoji characters are
  removed, but the character class is a fixed list of ranges: U+231A (WATCH) and U+1F7E2
  (LARGE GREEN CIRCLE), emoji outside every enumerated range, pass through unchanged.
\<close>

theorem remove_emojis_keeps_watch:
  "remove_emojis [0x231A] = [0x231A] \<and> remove_emojis [0x1F7E2] = [0x1F7E2]"
  by (simp add: emoji_eval)

section \<open>add\_newlines\_before\_lists.py: a second pass changes nothing\<close>

lemma split_nl_nonempty: "split_nl s \<noteq> []"
  by (induction s) (auto split: list.splits)

lemma split_nl_no_NL: "l \<in> set (split_nl s) \<Longrightarrow> NL \<notin> set l"
  by (induction s arbitrary: l) (auto split: if_splits list.splits)

lemma split_join_nl:
  "ls \<noteq> [] \<Longrightarrow> \<forall>l \<in> set ls. NL \<notin> set l \<Longrightarrow> split_nl (join_nl ls) = ls"
proof (induction ls rule: join_nl.induct)
  case 1
  then show ?case by simp
next
  case (2 l)
  then have "NL \<notin> set l" by simp
  then show ?case by (induction l) (auto split: list.splits)
next
  case (3 l k ks)
  then have IH: "split_nl (join_nl (k # ks)) = k # ks" and l: "NL \<notin> set l" by simp_all
  from l have "split_nl (l @ NL # join_nl (k # ks)) = l # split_nl (join_nl (k # ks))"
    by (induction l) (auto split: list.splits)
  with IH show ?case by simp
qed

lemma list_loop_result:
  "list_loop d c p ls acc = acc @ list_loop d c p ls []"
proof (induction ls arbitrary: c p acc)
  case Nil
  show ?case by simp
next
  case (Cons l ls)
  show ?case
    using Cons [of _ _ "acc @ [l]"] Cons [of _ _ "[l]"] Cons [of _ _ "acc @ [[], l]"] Cons [of _ _ "[[], l]"]
    by simp
qed

lemma strip_Nil: "strip [] = []"
  by (simp add: strip_def lstrip_def rstrip_def)

lemma not_fence_Nil: "\<not> is_code_fence []"
  by (simp add: is_code_fence_def strip_Nil startswith_def py_def)

lemma blank_Nil: "is_blank_line []"
  by (simp add: is_blank_line_def strip_Nil)

lemma not_list_item_Nil: "\<not> is_list_item d []"
  by (simp add: is_list_item_def lstrip_def re_match_def ul_rx_def ol_rx_def start_def run_len_def)

lemma list_loop_fence:
  "is_code_fence l \<Longrightarrow>
     list_loop d c p (l # ls) [] = l # list_loop d (\<not> c) (Some l) ls []"
  using list_loop_result [of d "\<not> c" "Some l" ls "[l]"] by simp

lemma list_loop_code:
  "\<not> is_code_fence l \<Longrightarrow> c \<Longrightarrow>
     list_loop d c p (l # ls) [] = l # list_loop d c (Some l) ls []"
  using list_loop_result [of d c "Some l" ls "[l]"] by simp

lemma list_loop_insert:
  "\<not> is_code_fence l \<Longrightarrow> \<not> c \<Longrightarrow> is_list_item d l \<Longrightarrow> p = Some q \<Longrightarrow>
     \<not> is_blank_line q \<Longrightarrow> \<not> is_list_item d q \<Longrightarrow>
     list_loop d c p (l # ls) [] = [] # l # list_loop d c (Some l) ls []"
  using list_loop_result [of d c "Some l" ls "[[], l]"] by simp

lemma list_loop_keep:
  "\<not> is_code_fence l \<Longrightarrow> \<not> c \<Longrightarrow>
     \<not> (is_list_item d l
        \<and> (case p of None \<Rightarrow> False | Some q \<Rightarrow> \<not> is_blank_line q \<and> \<not> is_list_item d q)) \<Longrightarrow>
     list_loop d c p (l # ls) [] = l # list_loop d c (Some l) ls []"
  using list_loop_result [of d c "Some l" ls "[l]"] by (auto split: option.splits)

lemma list_loop_idem:
  "list_loop d c p (list_loop d c p ls []) [] = list_loop d c p ls []"
proof (induction ls arbitrary: c p)
  case Nil
  show ?case by simp
next
  case (Cons l ls)
  show ?case
  proof (cases "is_code_fence l")
    case True
    show ?thesis
      by (simp only: list_loop_fence [OF True] Cons)
  next
    case nf: False
    show ?thesis
    proof (cases c)
      case True
      show ?thesis
        by (simp only: list_loop_code [OF nf True] Cons)
    next
      case nc: False
      show ?thesis
      proof (cases "is_list_item d l
          \<and> (case p of None \<Rightarrow> False | Some q \<Rightarrow> \<not> is_blank_line q \<and> \<not> is_list_item d q)")
        case True
        then obtain q where q: "p = Some q" "\<not> is_blank_line q" "\<not> is_list_item d q"
          and li: "is_list_item d l"
          by (auto split: option.splits)
        let ?R = "list_loop d c (Some l) ls []"
        have "list_loop d c p ([] # l # ?R) [] = [] # list_loop d c (Some []) (l # ?R) []"
          by (rule list_loop_keep) (simp_all add: not_fence_Nil nc not_list_item_Nil)
        also have "list_loop d c (Some []) (l # ?R) [] = l # list_loop d c (Some l) ?R []"
          by (rule list_loop_keep) (simp_all add: nf nc blank_Nil)
        finally show ?thesis
          by (simp only: list_loop_insert [OF nf nc li q] Cons)
      next
        case False
        show ?thesis
          by (simp only: list_loop_keep [OF nf nc False] Cons)
      qed
    qed
  qed
qed

lemma list_loop_step:
  "list_loop d c p (l # ls) [] = l # list_loop d (\<not> c) (Some l) ls []
   \<or> list_loop d c p (l # ls) [] = l # list_loop d c (Some l) ls []
   \<or> list_loop d c p (l # ls) [] = [] # l # list_loop d c (Some l) ls []"
proof (cases "is_code_fence l")
  case True
  from list_loop_fence [OF True, of d c p ls] show ?thesis by blast
next
  case nf: False
  show ?thesis
  proof (cases c)
    case True
    from list_loop_code [OF nf True, of d p ls] show ?thesis by blast
  next
    case nc: False
    show ?thesis
    proof (cases "is_list_item d l
        \<and> (case p of None \<Rightarrow> False | Some q \<Rightarrow> \<not> is_blank_line q \<and> \<not> is_list_item d q)")
      case True
      then obtain q where "p = Some q" "\<not> is_blank_line q" "\<not> is_list_item d q" "is_list_item d l"
        by (auto split: option.splits)
      with nf nc have "list_loop d c p (l # ls) [] = [] # l # list_loop d c (Some l) ls []"
        by (intro list_loop_insert)
      then show ?thesis by blast
    next
      case False
      with nf nc have "list_loop d c p (l # ls) [] = l # list_loop d c (Some l) ls []"
        by (intro list_loop_keep)
      then show ?thesis by blast
    qed
  qed
qed

lemma list_loop_lines:
  "set (list_loop d c p ls []) \<subseteq> insert [] (set ls)"
proof (induction ls arbitrary: c p)
  case Nil
  show ?case by simp
next
  case (Cons l ls)
  from list_loop_step [of d c p l ls] Cons [of "\<not> c" "Some l"] Cons [of c "Some l"] show ?case
    by auto
qed

lemma list_loop_nonempty: "ls \<noteq> [] \<Longrightarrow> list_loop d c p ls [] \<noteq> []"
proof (cases ls)
  case Nil
  moreover assume "ls \<noteq> []"
  ultimately show ?thesis by simp
next
  case (Cons l ks)
  with list_loop_step [of d c p l ks] show ?thesis by auto
qed

text \<open>
  Claim C9. \<open>add_newlines_before_lists\<close> is idempotent: a second pass over the output of
  the first inserts nothing, whatever the table of decimal digits is.
\<close>

theorem add_newlines_before_lists_idempotent:
  "add_newlines_before_lists decimal (add_newlines_before_lists decimal s)
     = add_newlines_before_lists decimal s"
proof -
  let ?out = "list_loop decimal False None (split_nl s) []"
  have "?out \<noteq> []"
    by (rule list_loop_nonempty) (rule split_nl_nonempty)
  moreover have "\<forall>l \<in> set ?out. NL \<notin> set l"
    using list_loop_lines [of decimal False None "split_nl s"] split_nl_no_NL [of _ s]
    by auto
  ultimately have "split_nl (join_nl ?out) = ?out"
    by (rule split_join_nl)
  then show ?thesis
    by (simp add: add_newlines_before_lists_def list_loop_idem)
qed

lemmas lists_eval = add_newlines_before_lists_def is_list_item_def is_blank_line_def is_code_fence_def
  ul_rx_def ol_rx_def ascii_digit_def strip_def lstrip_def rstrip_def startswith_def re_match_def
  start_def run_len_def advance_def one_of_def py_def NL_def is_space_def

theorem add_newlines_before_lists_idempotent_witness:
  "add_newlines_before_lists ascii_digit (py ''t\<newline>- a\<newline>1. b'') = py ''t\<newline>\<newline>- a\<newline>1. b''
   \<and> add_newlines_before_lists ascii_digit (py ''t\<newline>\<newline>- a\<newline>1. b'') = py ''t\<newline>\<newline>- a\<newline>1. b''"
proof -
  have one: "add_newlines_before_lists ascii_digit (py ''t\<newline>- a\<newline>1. b'') = py ''t\<newline>\<newline>- a\<newline>1. b''"
    by (simp add: lists_eval)
  with add_newlines_before_lists_idempotent [of ascii_digit "py ''t\<newline>- a\<newline>1. b''"]
  show ?thesis by simp
qed

section \<open>add\_python\_snippets.py: a missing file skips one section only\<close>

lemma section_outcome_local:
  assumes len: "length a = length b" and agree: "\<forall>i \<le> n + 1. a ! i = b ! i"
  shows "section_outcome lower files a n = section_outcome lower files b n"
proof -
  have "take n a = take n b"
  proof (rule nth_equalityI)
    show "length (take n a) = length (take n b)" using len by simp
  next
    fix i assume "i < length (take n a)"
    then show "take n a ! i = take n b ! i" using agree by simp
  qed
  moreover from agree have "a ! (n + 1) = b ! (n + 1)" by simp
  ultimately show ?thesis
    using len by (simp add: section_outcome_def find_pattern_name_before_line_def)
qed

lemma section_step_lines:
  "text_lines (section_step lower files st n) =
     (case inserted (section_outcome lower files (text_lines st) n) of
        None \<Rightarrow> text_lines st | Some t \<Rightarrow> (text_lines st)[n + 1 := t])"
  by (simp add: section_step_def split: outcome.splits)

lemma section_step_warnings:
  "set (warnings (section_step lower files st n)) =
     set (warnings st) \<union> {w. section_outcome lower files (text_lines st) n = Warn w}"
  by (auto simp: section_step_def split: outcome.splits)

lemma run_sections:
  assumes "sorted_wrt (>) ns" and "length (text_lines st) = length ls"
    and "\<forall>n \<in> set ns. \<forall>i \<le> n + 1. text_lines st ! i = ls ! i"
  shows "length (text_lines (foldl (section_step lower files) st ns)) = length ls
    \<and> (\<forall>i < length ls. text_lines (foldl (section_step lower files) st ns) ! i =
         (case (if 0 < i \<and> i - 1 \<in> set ns then inserted (section_outcome lower files ls (i - 1))
                else None) of
            None \<Rightarrow> text_lines st ! i | Some t \<Rightarrow> t))
    \<and> set (warnings (foldl (section_step lower files) st ns)) =
         set (warnings st) \<union> {w. \<exists>n \<in> set ns. section_outcome lower files ls n = Warn w}"
  using assms
proof (induction ns arbitrary: st)
  case Nil
  then show ?case by simp
next
  case (Cons n ns)
  let ?st1 = "section_step lower files st n"
  from Cons.prems(2,3) have out: "section_outcome lower files (text_lines st) n = section_outcome lower files ls n"
    by (intro section_outcome_local) simp_all
  have len1: "length (text_lines ?st1) = length ls"
    using Cons.prems(2) by (simp add: section_step_lines split: option.splits)
  have lines1: "text_lines ?st1 ! i = (case (if i = n + 1 then inserted (section_outcome lower files ls n) else None) of
      None \<Rightarrow> text_lines st ! i | Some t \<Rightarrow> t)" if "i < length ls" for i
    using that Cons.prems(2) by (simp add: section_step_lines out split: option.splits)
  from Cons.prems(1) have below: "\<forall>m \<in> set ns. m < n" and sorted: "sorted_wrt (>) ns"
    by auto
  have agree1: "\<forall>m \<in> set ns. \<forall>i \<le> m + 1. text_lines ?st1 ! i = ls ! i"
  proof (intro ballI allI impI)
    fix m i assume m: "m \<in> set ns" and i: "i \<le> m + 1"
    with below have "i \<noteq> n + 1" by auto
    moreover from Cons.prems(3) m i have "text_lines st ! i = ls ! i" by simp
    ultimately show "text_lines ?st1 ! i = ls ! i"
      by (simp add: section_step_lines split: option.splits)
  qed
  note IH = Cons.IH [OF sorted len1 agree1]
  from below have notin: "n \<notin> set ns" by auto
  have "\<forall>i < length ls. text_lines (foldl (section_step lower files) ?st1 ns) ! i =
         (case (if 0 < i \<and> i - 1 \<in> set (n # ns) then inserted (section_outcome lower files ls (i - 1))
                else None) of
            None \<Rightarrow> text_lines st ! i | Some t \<Rightarrow> t)"
  proof (intro allI impI)
    fix i assume i: "i < length ls"
    show "text_lines (foldl (section_step lower files) ?st1 ns) ! i =
         (case (if 0 < i \<and> i - 1 \<in> set (n # ns) then inserted (section_outcome lower files ls (i - 1))
                else None) of
            None \<Rightarrow> text_lines st ! i | Some t \<Rightarrow> t)"
    proof -
      from IH i have IHi: "text_lines (foldl (section_step lower files) ?st1 ns) ! i =
         (case (if 0 < i \<and> i - 1 \<in> set ns then inserted (section_outcome lower files ls (i - 1))
                else None) of
            None \<Rightarrow> text_lines ?st1 ! i | Some t \<Rightarrow> t)"
        by blast
      show ?thesis
      proof (cases "0 < i \<and> i - 1 \<in> set ns")
        case C: True
        with notin have D: "\<not> i = n + 1" by auto
        from C have E: "0 < i \<and> i - 1 \<in> set (n # ns)" by simp
        show ?thesis
          unfolding IHi lines1 [OF i]
          by (simp only: if_P [OF C] if_not_P [OF D] if_P [OF E] option.case split: option.splits)
      next
        case C: False
        show ?thesis
        proof (cases "i = n + 1")
          case D: True
          then have E: "0 < i \<and> i - 1 \<in> set (n # ns)" and n: "i - 1 = n" by simp_all
          show ?thesis
            unfolding IHi lines1 [OF i]
            by (simp only: if_not_P [OF C] if_P [OF D] if_P [OF E] option.case) (simp only: n)
        next
          case D: False
          with C have E: "\<not> (0 < i \<and> i - 1 \<in> set (n # ns))" by auto
          show ?thesis
            unfolding IHi lines1 [OF i]
            by (simp only: if_not_P [OF C] if_not_P [OF D] if_not_P [OF E] option.case)
        qed
      qed
    qed
  qed
  moreover have "set (warnings (foldl (section_step lower files) ?st1 ns)) =
         set (warnings st) \<union> {w. \<exists>m \<in> set (n # ns). section_outcome lower files ls m = Warn w}"
    using IH by (auto simp: section_step_warnings out)
  ultimately show ?case using IH by simp
qed

lemma snippet_sections_order: "sorted_wrt (>) (rev (snippet_sections ls))"
  by (simp add: snippet_sections_def sorted_wrt_rev sorted_wrt_filter flip: strict_sorted_iff)
     

lemma section_outcome_missing_file:
  assumes "n + 1 < length ls" and "strip (ls ! (n + 1)) = []"
    and "find_pattern_name_before_line ls n = Some h" and "h \<noteq> []"
    and "pattern_name_to_filename lower h = Some name" and "name \<noteq> []"
    and "files (name @ py ''.py'') = None"
  shows "section_outcome lower files ls n = Warn (FileNotFound (name @ py ''.py''))"
  using assms by (simp add: section_outcome_def)

text \<open>
  Claim C5. For every snippet section that the loop examines and for which the pattern
  header is not found, cannot be parsed, or names a file that does not exist, the script
  prints the warning and leaves the lines of that section as they were; it goes on to the
  remaining sections, each of which gets its code block, and no other line of the file
  changes. The run always ends with the output written.
\<close>

theorem add_python_snippets_skips_missing:
  assumes ls: "ls = readlines content"
    and st: "st = add_python_snippets lower files content"
  shows "length (text_lines st) = length ls
    \<and> (\<forall>n \<in> set (snippet_sections ls). \<forall>w. section_outcome lower files ls n = Warn w \<longrightarrow>
          w \<in> set (warnings st) \<and> text_lines st ! n = ls ! n \<and> text_lines st ! (n + 1) = ls ! (n + 1))
    \<and> (\<forall>n \<in> set (snippet_sections ls). \<forall>h f code.
          section_outcome lower files ls n = Insert h f code \<longrightarrow>
          text_lines st ! (n + 1) = insert_text code)
    \<and> (\<forall>i < length ls.
          (\<forall>n \<in> set (snippet_sections ls). \<forall>h f code.
             section_outcome lower files ls n = Insert h f code \<longrightarrow> i \<noteq> n + 1) \<longrightarrow>
          text_lines st ! i = ls ! i)"
proof -
  let ?ns = "rev (snippet_sections ls)"
  let ?st0 = "\<lparr>text_lines = ls, modifications = [], warnings = []\<rparr>"
  have st': "st = foldl (section_step lower files) ?st0 ?ns"
    by (simp add: st ls add_python_snippets_def Let_def)
  have run: "length (text_lines st) = length ls
    \<and> (\<forall>i < length ls. text_lines st ! i =
         (case (if 0 < i \<and> i - 1 \<in> set ?ns then inserted (section_outcome lower files ls (i - 1))
                else None) of
            None \<Rightarrow> text_lines ?st0 ! i | Some t \<Rightarrow> t))
    \<and> set (warnings st) =
         set (warnings ?st0) \<union> {w. \<exists>n \<in> set ?ns. section_outcome lower files ls n = Warn w}"
    unfolding st' by (rule run_sections) (simp_all add: snippet_sections_order)
  from run have len: "length (text_lines st) = length ls" by blast
  have lines0: "text_lines ?st0 = ls" and warnings0: "set (warnings ?st0) = {}" by simp_all
  from run have "\<forall>i < length ls. text_lines st ! i =
         (case (if 0 < i \<and> i - 1 \<in> set ?ns then inserted (section_outcome lower files ls (i - 1))
                else None) of
            None \<Rightarrow> text_lines ?st0 ! i | Some t \<Rightarrow> t)"
    by blast
  then have at: "text_lines st ! i =
         (case (if 0 < i \<and> i - 1 \<in> set (snippet_sections ls)
                then inserted (section_outcome lower files ls (i - 1)) else None) of
            None \<Rightarrow> ls ! i | Some t \<Rightarrow> t)" if "i < length ls" for i
    using that unfolding lines0 set_rev by blast
  from run have "set (warnings st) =
         set (warnings ?st0) \<union> {w. \<exists>n \<in> set ?ns. section_outcome lower files ls n = Warn w}"
    by blast
  then have warn: "set (warnings st)
      = {w. \<exists>n \<in> set (snippet_sections ls). section_outcome lower files ls n = Warn w}"
    unfolding warnings0 set_rev by simp
  have sec_lt: "n < length ls" if "n \<in> set (snippet_sections ls)" for n
    using that by (simp add: snippet_sections_def)
  have sec_not_blank: "strip (ls ! n) \<noteq> []" if "n \<in> set (snippet_sections ls)" for n
    using that by (auto simp: snippet_sections_def py_def)
  have next_lt: "n + 1 < length ls" if "section_outcome lower files ls n \<noteq> Skip" for n
    using that by (auto simp: section_outcome_def split: if_splits)
  have blank: "strip (ls ! (n + 1)) = []" if "section_outcome lower files ls n \<noteq> Skip" for n
    using that by (auto simp: section_outcome_def split: if_splits)
  have header_kept: "text_lines st ! n = ls ! n" if n: "n \<in> set (snippet_sections ls)" for n
  proof (cases "0 < n \<and> n - 1 \<in> set (snippet_sections ls) \<and> section_outcome lower files ls (n - 1) \<noteq> Skip")
    case True
    then have "strip (ls ! n) = []" using blank [of "n - 1"] by simp
    with sec_not_blank [OF n] show ?thesis by simp
  next
    case False
    then have "(if 0 < n \<and> n - 1 \<in> set (snippet_sections ls)
        then inserted (section_outcome lower files ls (n - 1)) else None) = None"
      by (cases "section_outcome lower files ls (n - 1)") auto
    with at [OF sec_lt [OF n]] show ?thesis by simp
  qed
  have warned: "w \<in> set (warnings st) \<and> text_lines st ! n = ls ! n \<and> text_lines st ! (n + 1) = ls ! (n + 1)"
    if n: "n \<in> set (snippet_sections ls)" and w: "section_outcome lower files ls n = Warn w" for n w
  proof -
    from n w warn have "w \<in> set (warnings st)" by auto
    moreover from w have "n + 1 < length ls" by (intro next_lt) simp
    from at [OF this] n w have "text_lines st ! (n + 1) = ls ! (n + 1)" by simp
    ultimately show ?thesis using header_kept [OF n] by simp
  qed
  have ins: "text_lines st ! (n + 1) = insert_text code"
    if n: "n \<in> set (snippet_sections ls)" and w: "section_outcome lower files ls n = Insert h f code" for n h f code
  proof -
    from w have "n + 1 < length ls" by (intro next_lt) simp
    from at [OF this] n w show ?thesis by simp
  qed
  have other: "text_lines st ! i = ls ! i"
    if i: "i < length ls" and no: "\<forall>n \<in> set (snippet_sections ls). \<forall>h f code.
             section_outcome lower files ls n = Insert h f code \<longrightarrow> i \<noteq> n + 1" for i
  proof -
    have "(if 0 < i \<and> i - 1 \<in> set (snippet_sections ls)
        then inserted (section_outcome lower files ls (i - 1)) else None) = None"
    proof (cases "0 < i \<and> i - 1 \<in> set (snippet_sections ls)")
      case True
      with no have "\<forall>h f code. section_outcome lower files ls (i - 1) \<noteq> Insert h f code"
        by auto
      then have "inserted (section_outcome lower files ls (i - 1)) = None"
        by (cases "section_outcome lower files ls (i - 1)") auto
      then show ?thesis by (simp only: if_P [OF True])
    next
      case False
      show ?thesis by (simp only: if_not_P [OF False])
    qed
    with at [OF i] show ?thesis by simp
  qed
  from len warned ins other show ?thesis by blast
qed

lemmas snippets_eval = section_outcome_def find_pattern_name_before_line_def pattern_name_to_filename_def
  dash_rx_def filename_mapping_def re_search_def strip_def lstrip_def rstrip_def str_replace_def
  replace_from_eval startswith_def endswith_def ascii_lower_def group_def consumed_def
  start_def run_len_def advance_def py_def NL_def is_space_def insert_text_def

lemma ex_lines: "readlines snippet_example =
     [py ''a\<newline>'', py ''## CONTINUED: -x\<newline>'', py ''## Python Architecture Diagram Snippet\<newline>'', py ''\<newline>'',
      py ''## CONTINUED: -y\<newline>'', py ''## Python Architecture Diagram Snippet\<newline>'', py ''\<newline>'']"
  by (simp add: snippet_example_def readlines_def py_def NL_def)
lemma ex_secs: "snippet_sections (readlines snippet_example) = [2, 5]"
  unfolding ex_lines by (simp add: snippet_sections_def strip_def lstrip_def rstrip_def py_def is_space_def upt_rec)
lemma ex_out5: "section_outcome ascii_lower [py ''x_pattern.py'' \<mapsto> py ''c\<newline>''] (readlines snippet_example) 5
   = Warn (FileNotFound (py ''y_pattern.py''))"
  unfolding ex_lines by (simp add: snippets_eval)
lemma ex_out2: "section_outcome ascii_lower [py ''x_pattern.py'' \<mapsto> py ''c\<newline>''] (readlines snippet_example) 2
   = Insert (py ''## CONTINUED: -x'') (py ''x_pattern'') (py ''c\<newline>'')"
  unfolding ex_lines by (simp add: snippets_eval)

theorem add_python_snippets_skips_missing_witness:
  "5 \<in> set (snippet_sections (readlines snippet_example))
   \<and> section_outcome ascii_lower [py ''x_pattern.py'' \<mapsto> py ''c\<newline>''] (readlines snippet_example) 5
       = Warn (FileNotFound (py ''y_pattern.py''))
   \<and> FileNotFound (py ''y_pattern.py'')
       \<in> set (warnings (add_python_snippets ascii_lower [py ''x_pattern.py'' \<mapsto> py ''c\<newline>''] snippet_example))
   \<and> text_lines (add_python_snippets ascii_lower [py ''x_pattern.py'' \<mapsto> py ''c\<newline>''] snippet_example) ! 6
       = py ''\<newline>''
   \<and> text_lines (add_python_snippets ascii_lower [py ''x_pattern.py'' \<mapsto> py ''c\<newline>''] snippet_example) ! 3
       = py ''\<newline>```python\<newline>c\<newline>```\<newline>\<newline>''"
proof -
  let ?files = "[py ''x_pattern.py'' \<mapsto> py ''c\<newline>'']"
  note run = add_python_snippets_skips_missing [where content = snippet_example
      and lower = ascii_lower and files = ?files, OF refl refl]
  have five: "5 \<in> set (snippet_sections (readlines snippet_example))"
    and two: "2 \<in> set (snippet_sections (readlines snippet_example))"
    by (simp_all add: ex_secs)
  from run five ex_out5
  have "FileNotFound (py ''y_pattern.py'') \<in> set (warnings (add_python_snippets ascii_lower ?files snippet_example))
      \<and> text_lines (add_python_snippets ascii_lower ?files snippet_example) ! (5 + 1)
          = readlines snippet_example ! (5 + 1)"
    by blast
  moreover from run two ex_out2
  have "text_lines (add_python_snippets ascii_lower ?files snippet_example) ! (2 + 1) = insert_text (py ''c\<newline>'')"
    by blast
  ultimately show ?thesis
    using five ex_out5 by (simp add: ex_lines insert_text_def py_def)
qed

section \<open>generate\_diagrams.py: the error path and a drawing that stays\<close>

lemmas diagrams_eval =
  scan_loop.simps [where st = "\<lparr>scan_i = _, current_section = _, modified_lines = _, inserted_count = _,
     removed_count = _, scan_in_code_block = _, skip_until_code_end = _\<rparr>"]
  scan_step_def [where st = "\<lparr>scan_i = _, current_section = _, modified_lines = _, inserted_count = _,
     removed_count = _, scan_in_code_block = _, skip_until_code_end = _\<rparr>"]
  keep_line_def [where st = "\<lparr>scan_i = _, current_section = _, modified_lines = _, inserted_count = _,
     removed_count = _, scan_in_code_block = _, skip_until_code_end = _\<rparr>"]
  at_heading_def [where st = "\<lparr>scan_i = _, current_section = _, modified_lines = _, inserted_count = _,
     removed_count = _, scan_in_code_block = _, skip_until_code_end = _\<rparr>"]
  at_overview_def [where st = "\<lparr>scan_i = _, current_section = _, modified_lines = _, inserted_count = _,
     removed_count = _, scan_in_code_block = _, skip_until_code_end = _\<rparr>"]
  skip_block_def [where st = "\<lparr>scan_i = _, current_section = _, modified_lines = _, inserted_count = _,
     removed_count = _, scan_in_code_block = _, skip_until_code_end = _\<rparr>"]
  next_blank_def [where st = "\<lparr>scan_i = _, current_section = _, modified_lines = _, inserted_count = _,
     removed_count = _, scan_in_code_block = _, skip_until_code_end = _\<rparr>"]
  scan_lines_def is_fence_def is_blank_def has_any_def box_chars_def
  box_chars_overview_def primary_insertions_def diagram_text_def strip_def lstrip_def rstrip_def
  startswith_def py_def is_space_def


text \<open>
  Claim C6. When \<open>import graphviz\<close> fails or \<open>dot\<close> is absent, \<open>install_dependencies\<close> prints
  its message and returns \<open>False\<close>, and \<open>main\<close> returns at once: nothing is rendered, no
  file is read or written, and the files are as they were.
\<close>

theorem main_aborts_without_graphviz:
  assumes "\<not> graphviz_importable h \<or> \<not> dot_on_path h"
  shows "fst (install_dependencies h) = False \<and> snd (install_dependencies h) \<noteq> []
    \<and> run_files (main h fs) = fs \<and> generated (main h fs) = []
    \<and> files_read (main h fs) = [] \<and> files_written (main h fs) = []
    \<and> run_error (main h fs) = None
    \<and> last (printed (main h fs)) = py ''\<newline>Please install Graphviz and try again.''"
  using assms by (auto simp: main_def install_dependencies_def Let_def)

theorem main_aborts_without_graphviz_witness:
  "run_files (main \<lparr>graphviz_importable = False, dot_on_path = True, render_png = (\<lambda>n. Some n),
        argv = [py ''generate_diagrams.py'', py ''doc.md'']\<rparr> [py ''doc.md'' \<mapsto> py ''# t\<newline>''])
     = [py ''doc.md'' \<mapsto> py ''# t\<newline>'']
   \<and> files_read (main \<lparr>graphviz_importable = False, dot_on_path = True, render_png = (\<lambda>n. Some n),
        argv = [py ''generate_diagrams.py'', py ''doc.md'']\<rparr> [py ''doc.md'' \<mapsto> py ''# t\<newline>'']) = []
   \<and> files_written (main \<lparr>graphviz_importable = False, dot_on_path = True, render_png = (\<lambda>n. Some n),
        argv = [py ''generate_diagrams.py'', py ''doc.md'']\<rparr> [py ''doc.md'' \<mapsto> py ''# t\<newline>'']) = []"
  using main_aborts_without_graphviz [of "\<lparr>graphviz_importable = False, dot_on_path = True,
     render_png = (\<lambda>n. Some n), argv = [py ''generate_diagrams.py'', py ''doc.md'']\<rparr>"
     "[py ''doc.md'' \<mapsto> py ''# t\<newline>'']"]
  by simp

text \<open>
  Claim C4 does not hold of the code. In a known chapter, a fenced block of box-drawing
  characters that does not directly follow an \<open>**Architecture Overview**:\<close> line stays in the
  output: the look-ahead starts at the opening fence itself and stops there.
\<close>

theorem box_block_not_removed:
  "modified_lines (scan_lines (py ''diagrams'') box_example) =
     [py ''# Virtualized Infinite List with Dynamic Heights\<newline>'', py ''\<newline>'',
      py ''\<newline>![Architecture Diagram](diagrams/virtuallist-architecture.png)\<newline>\<newline>'',
      py ''```\<newline>'', [0x250C, 0x2500, 0x2510, 10], py ''```\<newline>'']
   \<and> removed_count (scan_lines (py ''diagrams'') box_example) = 0"
  by (simp add: box_example_def diagrams_eval Let_def)
section \<open>replace\_code\_with\_png.py: the three cases of a section\<close>













section \<open>convert\_to\_org.py: bold text in a heading\<close>



end
